theory Spec2Isabelle
  imports Main
begin

section \<open>JavaScript strings\<close>

text \<open>
  Strings are lists of characters. The operations of \<^verbatim>\<open>js/image-downloader.js\<close> on them
  only look for the ASCII characters \<^verbatim>\<open>/ - # . ?\<close>, ASCII letters and digits, so a list of
  characters behaves as the string of code units does.
\<close>

text \<open>\<^verbatim>\<open>s.split(c)\<close> for a one-character separator: never empty, keeps empty pieces.\<close>

fun split_on :: "char \<Rightarrow> string \<Rightarrow> string list" where
  "split_on c [] = [[]]"
| "split_on c (x # xs) =
     (if x = c then [] # split_on c xs
      else (case split_on c xs of
              [] \<Rightarrow> [[x]]
            | s # ss \<Rightarrow> (x # s) # ss))"

text \<open>\<^verbatim>\<open>pathname.replace(/^\/+|\/+$/g, "")\<close>: the leading and the trailing run of slashes go.\<close>

definition strip_slashes :: "string \<Rightarrow> string" where
  "strip_slashes pathname =
     rev (dropWhile (\<lambda>c. c = CHR ''/'') (rev (dropWhile (\<lambda>c. c = CHR ''/'') pathname)))"

text \<open>\<^verbatim>\<open>s.startsWith("#")\<close>\<close>

fun startsWith_hash :: "string \<Rightarrow> bool" where
  "startsWith_hash [] = False"
| "startsWith_hash (c # cs) = (c = CHR ''#'')"

text \<open>\<^verbatim>\<open>s.replace(/-/g, "")\<close>\<close>

definition remove_hyphens :: "string \<Rightarrow> string" where
  "remove_hyphens s = filter (\<lambda>c. c \<noteq> CHR ''-'') s"

text \<open>The segments of a path joined by slashes: the inverse view of \<^const>\<open>split_on\<close>.\<close>

fun join_slash :: "string list \<Rightarrow> string" where
  "join_slash [] = []"
| "join_slash [s] = s"
| "join_slash (s # t # ss) = s @ CHR ''/'' # join_slash (t # ss)"

section \<open>The filename prefix\<close>

text \<open>
  \<^verbatim>\<open>getFileNameFromUrl()\<close> (lines 278-305; the function version, lines 7-35, is the same).
  The browser's \<^verbatim>\<open>new URL(url).pathname\<close> is a parameter \<open>URL_pathname\<close>: \<open>None\<close> when the
  constructor throws, which the \<^verbatim>\<open>catch\<close> turns into \<^verbatim>\<open>"images"\<close>. The page address
  \<^verbatim>\<open>window.location.href\<close> is the parameter \<open>href\<close>.
\<close>

definition getFileNameFromUrl :: "(string \<Rightarrow> string option) \<Rightarrow> string \<Rightarrow> string" where
  "getFileNameFromUrl URL_pathname href =
     (case URL_pathname href of
        None \<Rightarrow> ''images''
      | Some pathname \<Rightarrow>
          (let cleanPath = strip_slashes pathname;
               segments = split_on CHR ''/'' cleanPath
           in if 3 \<le> length segments \<and> segments ! 0 = ''condo'' then
                (let condoName = remove_hyphens (segments ! 1);
                     roomNumber = segments ! (length segments - 1);
                     roomNumber = (if startsWith_hash roomNumber
                                   then segments ! (length segments - 2)
                                   else roomNumber)
                 in ''condo_'' @ condoName @ ''_'' @ roomNumber)
              else ''images''))"

text \<open>
  The prefix as the specification words it: only the non-empty segments of the path count.
\<close>

definition nonempty_segments :: "string \<Rightarrow> string list" where
  "nonempty_segments pathname = filter (\<lambda>s. s \<noteq> []) (split_on CHR ''/'' pathname)"

definition derivePrefix_spec :: "string option \<Rightarrow> string" where
  "derivePrefix_spec parsed =
     (case parsed of
        None \<Rightarrow> ''images''
      | Some pathname \<Rightarrow>
          (let segs = nonempty_segments pathname
           in if 3 \<le> length segs \<and> segs ! 0 = ''condo'' then
                ''condo_'' @ remove_hyphens (segs ! 1) @ ''_'' @
                  (if startsWith_hash (last segs) then segs ! (length segs - 2) else last segs)
              else ''images''))"

text \<open>
  A small stand-in for the browser's URL parser, used in the examples only, for addresses of
  the form \<^verbatim>\<open>https://host/path?query#fragment\<close> whose path the parser leaves as it is (no
  dot segments, nothing to percent-encode): the pathname runs from the first slash after the
  host to the first \<^verbatim>\<open>?\<close> or \<^verbatim>\<open>#\<close> and is \<^verbatim>\<open>/\<close> when empty. Every other string is
  refused, as the constructor refuses a relative address. The theorems below hold for any
  parser.
\<close>

definition https_pathname :: "string \<Rightarrow> string option" where
  "https_pathname url =
     (if take 8 url = ''https://'' \<and> drop 8 url \<noteq> [] \<and> hd (drop 8 url) \<notin> {CHR ''/'', CHR ''?'', CHR ''#''} then
        (let rest = dropWhile (\<lambda>c. c \<notin> {CHR ''/'', CHR ''?'', CHR ''#''}) (drop 8 url);
             path = takeWhile (\<lambda>c. c \<notin> {CHR ''?'', CHR ''#''}) rest
         in Some (if path = [] then ''/'' else path))
      else None)"

section \<open>The file extension\<close>

text \<open>The character class \<^verbatim>\<open>[a-zA-Z0-9]\<close>.\<close>

definition is_alnum :: "char \<Rightarrow> bool" where
  "is_alnum c =
     (let n = (of_char c :: nat)
      in (48 \<le> n \<and> n \<le> 57) \<or> (65 \<le> n \<and> n \<le> 90) \<or> (97 \<le> n \<and> n \<le> 122))"

text \<open>\<^verbatim>\<open>toLowerCase()\<close> on one character: only the ASCII capitals change.\<close>

definition toLowerCase_char :: "char \<Rightarrow> char" where
  "toLowerCase_char c =
     (let n = (of_char c :: nat) in if 65 \<le> n \<and> n \<le> 90 then char_of (n + 32) else c)"

text \<open>
  \<^verbatim>\<open>pathname.match(/\.([a-zA-Z0-9]+)(?:[?#]|$)/)\<close>, giving the capture group of the leftmost
  match. At a dot the group takes the whole run of letters and digits that follows (the
  quantifier is greedy); a shorter run would be followed by a letter or digit, which is
  neither \<^verbatim>\<open>?\<close>, \<^verbatim>\<open>#\<close> nor the end, so backtracking never finds another match at that
  dot and the search moves on to the next character.
\<close>

fun match_ext :: "string \<Rightarrow> string option" where
  "match_ext [] = None"
| "match_ext (c # cs) =
     (if c = CHR ''.'' \<and> takeWhile is_alnum cs \<noteq> [] \<and>
         (dropWhile is_alnum cs = [] \<or> hd (dropWhile is_alnum cs) \<in> {CHR ''?'', CHR ''#''})
      then Some (takeWhile is_alnum cs)
      else match_ext cs)"

text \<open>\<^verbatim>\<open>getFileExtension(url)\<close> (lines 310-318 and 129-137).\<close>

definition getFileExtension :: "(string \<Rightarrow> string option) \<Rightarrow> string \<Rightarrow> string option" where
  "getFileExtension URL_pathname url =
     (case URL_pathname url of
        None \<Rightarrow> None
      | Some pathname \<Rightarrow>
          (case match_ext pathname of
             None \<Rightarrow> None
           | Some m \<Rightarrow> Some (map toLowerCase_char m)))"

text \<open>
  \<^verbatim>\<open>this.getFileExtension(url) || "jpg"\<close>: \<^verbatim>\<open>null\<close> and the empty string are both falsy.
\<close>

definition extension_or_jpg :: "string option \<Rightarrow> string" where
  "extension_or_jpg r = (case r of None \<Rightarrow> ''jpg'' | Some e \<Rightarrow> if e = [] then ''jpg'' else e)"

text \<open>
  The extension as the specification words it: the letters and digits after the last dot of
  the path, when a \<^verbatim>\<open>?\<close>, a \<^verbatim>\<open>#\<close> or the end of the path follows them, in lower case.
\<close>

definition after_last_dot :: "string \<Rightarrow> string" where
  "after_last_dot p = rev (takeWhile (\<lambda>c. c \<noteq> CHR ''.'') (rev p))"

definition before_last_dot :: "string \<Rightarrow> string" where
  "before_last_dot p = rev (drop 1 (dropWhile (\<lambda>c. c \<noteq> CHR ''.'') (rev p)))"

definition deriveExtension_spec :: "string \<Rightarrow> string option" where
  "deriveExtension_spec p =
     (if CHR ''.'' \<notin> set p then None
      else (let s = after_last_dot p;
                e = takeWhile is_alnum s;
                r = dropWhile is_alnum s
            in if e \<noteq> [] \<and> (r = [] \<or> hd r \<in> {CHR ''?'', CHR ''#''})
               then Some (map toLowerCase_char e)
               else None))"

section \<open>Per-image filenames\<close>

text \<open>A non-negative integer in a template literal: its decimal digits.\<close>

function toString_nat :: "nat \<Rightarrow> string" where
  "toString_nat n =
     (if n < 10 then [char_of (48 + n)]
      else toString_nat (n div 10) @ [char_of (48 + n mod 10)])"
  by pat_completeness auto
termination
  by (relation "measure id") auto

declare toString_nat.simps [simp del]

text \<open>
  The first four lines of \<^verbatim>\<open>processImage(img, index)\<close> (lines 386-389): the prefix is read
  from the page address each time an image is processed.
\<close>

definition processImage_filename ::
  "(string \<Rightarrow> string option) \<Rightarrow> string \<Rightarrow> string \<Rightarrow> nat \<Rightarrow> string" where
  "processImage_filename URL_pathname href url index =
     (let extension = extension_or_jpg (getFileExtension URL_pathname url);
          fileName = getFileNameFromUrl URL_pathname href
      in fileName @ ''_'' @ toString_nat (index + 1) @ ''.'' @ extension)"

text \<open>
  The filenames of one run as the code computes them, task \<open>i\<close> reading the page address
  \<open>hrefs i\<close> when it starts, and as the specification words it, from one prefix.
\<close>

definition run_filenames ::
  "(string \<Rightarrow> string option) \<Rightarrow> (nat \<Rightarrow> string) \<Rightarrow> string list \<Rightarrow> string list" where
  "run_filenames URL_pathname hrefs imgs =
     map (\<lambda>i. processImage_filename URL_pathname (hrefs i) (imgs ! i) i) [0..<length imgs]"

definition run_filenames_spec ::
  "(string \<Rightarrow> string option) \<Rightarrow> string \<Rightarrow> string list \<Rightarrow> string list" where
  "run_filenames_spec URL_pathname href imgs =
     (let prefix = getFileNameFromUrl URL_pathname href
      in map (\<lambda>i. prefix @ ''_'' @ toString_nat (i + 1) @ ''.'' @
                    extension_or_jpg (getFileExtension URL_pathname (imgs ! i)))
             [0..<length imgs])"

section \<open>Platform detection\<close>

datatype platform = Ios | Android | Desktop

fun starts_with :: "string \<Rightarrow> string \<Rightarrow> bool" where
  "starts_with s [] = True"
| "starts_with [] (t # ts) = False"
| "starts_with (c # cs) (t # ts) = (c = t \<and> starts_with cs ts)"

text \<open>The token occurs somewhere in the string.\<close>

fun has_substring :: "string \<Rightarrow> string \<Rightarrow> bool" where
  "has_substring [] tok = starts_with [] tok"
| "has_substring (c # cs) tok = (starts_with (c # cs) tok \<or> has_substring cs tok)"

text \<open>\<^verbatim>\<open>/iPad|iPhone|iPod/.test(userAgent)\<close>: case-sensitive.\<close>

definition ios_tokens :: "string list" where
  "ios_tokens = [''iPad'', ''iPhone'', ''iPod'']"

definition test_ios :: "string \<Rightarrow> bool" where
  "test_ios userAgent = list_ex (has_substring userAgent) ios_tokens"

text \<open>
  \<^verbatim>\<open>/Android|webOS|BlackBerry|IEMobile|Opera Mini/i.test(userAgent)\<close>: the \<^verbatim>\<open>i\<close> flag compares
  characters up to ASCII case.
\<close>

definition android_tokens :: "string list" where
  "android_tokens = [''Android'', ''webOS'', ''BlackBerry'', ''IEMobile'', ''Opera Mini'']"

definition test_android :: "string \<Rightarrow> bool" where
  "test_android userAgent =
     list_ex (\<lambda>tok. has_substring (map toLowerCase_char userAgent) (map toLowerCase_char tok))
       android_tokens"

text \<open>\<^verbatim>\<open>getPlatform()\<close> (lines 323-335), of \<^verbatim>\<open>navigator.userAgent\<close>.\<close>

definition getPlatform :: "string \<Rightarrow> platform" where
  "getPlatform userAgent =
     (if test_ios userAgent then Ios
      else if test_android userAgent then Android
      else Desktop)"

text \<open>
  What the two tests mean: a token occurs in a string when some text stands before it and
  some after, and occurs up to case when it does so after both are put in lower case.
\<close>

definition occurs_in :: "string \<Rightarrow> string \<Rightarrow> bool" where
  "occurs_in tok s = (\<exists>pre post. s = pre @ tok @ post)"

definition matches_ios :: "string \<Rightarrow> bool" where
  "matches_ios userAgent = (\<exists>tok. tok \<in> set ios_tokens \<and> occurs_in tok userAgent)"

definition matches_android :: "string \<Rightarrow> bool" where
  "matches_android userAgent =
     (\<exists>tok. tok \<in> set android_tokens \<and>
        occurs_in (map toLowerCase_char tok) (map toLowerCase_char userAgent))"

section \<open>The downloader object\<close>

text \<open>
  The status element: its background colour, its text (\<^verbatim>\<open>textContent\<close> or \<^verbatim>\<open>innerHTML\<close>)
  and whether it is in the document.
\<close>

record status =
  background :: string
  content :: string
  attached :: bool

text \<open>
  The callbacks handed to \<^verbatim>\<open>setTimeout\<close>: \<^verbatim>\<open>this.removeStatusDisplay()\<close>, and
  \<^verbatim>\<open>this.processImage(this.images[i], i).then(resolve)\<close> for image \<open>i\<close>.
\<close>

datatype timer = RemoveStatusDisplay | ProcessImage nat

text \<open>
  One task per image, with the promise it resolves. \<open>Pending\<close>: its timer has not fired.
  \<open>Loading\<close>: \<^verbatim>\<open>tempImg.src\<close> is set. \<open>Encoding\<close>: \<^verbatim>\<open>toBlob\<close> is running. \<open>Sharing\<close>:
  \<^verbatim>\<open>navigator.share\<close> is running. \<open>Done\<close> and \<open>Failed\<close>: resolved with
  \<^verbatim>\<open>{success: true}\<close> and \<^verbatim>\<open>{success: false}\<close>.
\<close>

datatype phase = Pending | Loading | Encoding | Sharing | Done | Failed

record task =
  phase :: phase
  filename :: string
  fileName :: string

text \<open>
  What the script reads from the browser: \<^verbatim>\<open>window.location.href\<close>,
  \<^verbatim>\<open>navigator.userAgent\<close>, whether
  \<^verbatim>\<open>navigator.share && navigator.canShare && navigator.canShare({ files: [] })\<close> is truthy, and
  \<^verbatim>\<open>new URL(s).pathname\<close>, which is \<open>None\<close> when the constructor throws. They stay the same
  during a run.
\<close>

record browser =
  location_href :: string
  navigator_userAgent :: string
  navigator_shares_files :: bool
  url_parser :: "string \<Rightarrow> string option"

text \<open>
  The fields of \<^verbatim>\<open>ImageDownloader\<close>, the pending \<^verbatim>\<open>setTimeout\<close> calls (delay in ms and
  callback, in the order of the calls), the tasks, whether \<^verbatim>\<open>processImages\<close> is suspended at
  \<^verbatim>\<open>await Promise.all\<close>, and three logs: the \<^verbatim>\<open>link.download\<close> names of the calls of
  \<^verbatim>\<open>downloadFile\<close>, the file name and text of the calls of \<^verbatim>\<open>navigator.share\<close>, and the calls
  of \<^verbatim>\<open>resolve\<close> with the task's index and its \<^verbatim>\<open>success\<close> flag.
\<close>

record downloader =
  processedCount :: nat
  failedCount :: nat
  images :: "string list"
  statusDiv :: "status option"
  timers :: "(nat \<times> timer) list"
  tasks :: "task list"
  awaiting :: bool
  downloads :: "string list"
  shares :: "(string \<times> string) list"
  resolved :: "(nat \<times> bool) list"

text \<open>The constructor's assignments, before \<^verbatim>\<open>this.init()\<close>; \<open>imgs\<close> are the \<^verbatim>\<open>src\<close> of the images found.\<close>

definition constructor_fields :: "string list \<Rightarrow> downloader" where
  "constructor_fields imgs =
     \<lparr>processedCount = 0, failedCount = 0, images = imgs, statusDiv = None, timers = [],
      tasks = [], awaiting = False, downloads = [], shares = [], resolved = []\<rparr>"

definition createStatusDisplay :: "downloader \<Rightarrow> downloader" where
  "createStatusDisplay d =
     d\<lparr>statusDiv := Some \<lparr>background = ''#333'', content = [], attached = True\<rparr>\<rparr>"

definition updateStatus :: "downloader \<Rightarrow> downloader" where
  "updateStatus d =
     (case statusDiv d of
        None \<Rightarrow> d
      | Some st \<Rightarrow>
          (if 0 < failedCount d then
             d\<lparr>statusDiv := Some (st\<lparr>content :=
                 ''Processing: '' @ toString_nat (processedCount d) @ ''/'' @
                 toString_nat (length (images d)) @ '', Failed: '' @
                 toString_nat (failedCount d)\<rparr>)\<rparr>
           else
             d\<lparr>statusDiv := Some (st\<lparr>content :=
                 ''Processing: '' @ toString_nat (processedCount d) @ ''/'' @
                 toString_nat (length (images d))\<rparr>)\<rparr>))"

text \<open>
  \<^verbatim>\<open>showError(message, duration = 3000)\<close> and \<^verbatim>\<open>showSuccess(message, duration = 5000)\<close>:
  \<open>None\<close> is an omitted second argument. Both do nothing while \<^verbatim>\<open>this.statusDiv\<close> is null.
\<close>

definition showError :: "string \<Rightarrow> nat option \<Rightarrow> downloader \<Rightarrow> downloader" where
  "showError message duration d =
     (case statusDiv d of
        None \<Rightarrow> d
      | Some st \<Rightarrow>
          d\<lparr>statusDiv := Some (st\<lparr>background := ''#f44336'', content := message\<rparr>),
            timers := timers d @ [(case duration of None \<Rightarrow> 3000 | Some ms \<Rightarrow> ms, RemoveStatusDisplay)]\<rparr>)"

definition showSuccess :: "string \<Rightarrow> nat option \<Rightarrow> downloader \<Rightarrow> downloader" where
  "showSuccess message duration d =
     (case statusDiv d of
        None \<Rightarrow> d
      | Some st \<Rightarrow>
          d\<lparr>statusDiv := Some (st\<lparr>background := ''#4CAF50'', content := message\<rparr>),
            timers := timers d @ [(case duration of None \<Rightarrow> 5000 | Some ms \<Rightarrow> ms, RemoveStatusDisplay)]\<rparr>)"

definition removeStatusDisplay :: "downloader \<Rightarrow> downloader" where
  "removeStatusDisplay d =
     (case statusDiv d of
        None \<Rightarrow> d
      | Some st \<Rightarrow> if attached st then d\<lparr>statusDiv := Some (st\<lparr>attached := False\<rparr>)\<rparr> else d)"

text \<open>
  The loop of \<^verbatim>\<open>processImages\<close> (lines 474-481, and 144-151 in the function version): one
  promise and one timer per image, the timer of image \<open>i\<close> set to \<open>i * interval\<close> ms. The
  interval is 200 in the class and 100 in the function version.
\<close>

function processImages_loop :: "nat \<Rightarrow> nat \<Rightarrow> downloader \<Rightarrow> downloader" where
  "processImages_loop interval i d =
     (if i < length (images d) then
        processImages_loop interval (i + 1)
          (d\<lparr>timers := timers d @ [(i * interval, ProcessImage i)],
             tasks := tasks d @ [\<lparr>phase = Pending, filename = [], fileName = []\<rparr>]\<rparr>)
      else d)"
  by pat_completeness auto
termination
  by (relation "measure (\<lambda>(interval, i, d). length (images d) - i)") auto

declare processImages_loop.simps [simp del]

text \<open>\<^verbatim>\<open>processImages()\<close> up to \<^verbatim>\<open>await Promise.all(imagePromises)\<close> (lines 470-484).\<close>

definition processImages :: "downloader \<Rightarrow> downloader" where
  "processImages d = (processImages_loop 200 0 d)\<lparr>awaiting := True\<rparr>"

text \<open>\<^verbatim>\<open>processImages()\<close> after the \<^verbatim>\<open>await\<close> (lines 486-496).\<close>

definition processImages_resume :: "downloader \<Rightarrow> downloader" where
  "processImages_resume d =
     (let d = d\<lparr>awaiting := False\<rparr>;
          successCount = processedCount d
      in if failedCount d = 0 then
           showSuccess (''Download complete! <br> '' @ toString_nat successCount @
                        '' images downloaded'') None d
         else if 0 < failedCount d then
           showError (''Download failed! <br> '' @ toString_nat (failedCount d) @ ''/'' @
                      toString_nat (length (images d)) @ '' images failed to download'') None d
         else d)"

text \<open>\<^verbatim>\<open>init()\<close> (lines 199-208).\<close>

definition init :: "downloader \<Rightarrow> downloader" where
  "init d =
     (if length (images d) = 0 then showError ''No images found on this page'' None d
      else processImages (updateStatus (createStatusDisplay d)))"

text \<open>\<^verbatim>\<open>new ImageDownloader()\<close> on a page whose images have the sources \<open>imgs\<close>.\<close>

definition ImageDownloader :: "string list \<Rightarrow> downloader" where
  "ImageDownloader imgs = init (constructor_fields imgs)"

subsection \<open>One image\<close>

text \<open>
  \<^verbatim>\<open>processImage(img, index)\<close> up to \<^verbatim>\<open>tempImg.src = url\<close>: the names are fixed and the load
  starts.
\<close>

definition processImage :: "browser \<Rightarrow> nat \<Rightarrow> downloader \<Rightarrow> downloader" where
  "processImage b index d =
     (let url = images d ! index;
          fileName = getFileNameFromUrl (url_parser b) (location_href b);
          filename = processImage_filename (url_parser b) (location_href b) url index
      in d\<lparr>tasks := (tasks d)[index := \<lparr>phase = Loading, filename = filename, fileName = fileName\<rparr>]\<rparr>)"

text \<open>\<^verbatim>\<open>resolve({ success })\<close> of the task's promise.\<close>

definition resolve :: "nat \<Rightarrow> bool \<Rightarrow> downloader \<Rightarrow> downloader" where
  "resolve index success d =
     d\<lparr>tasks := (tasks d)[index := (tasks d ! index)\<lparr>phase := (if success then Done else Failed)\<rparr>],
       resolved := resolved d @ [(index, success)]\<rparr>"

text \<open>The three failure handlers are the same three statements (lines 412-414, 422-424, 430-432).\<close>

definition task_failed :: "nat \<Rightarrow> downloader \<Rightarrow> downloader" where
  "task_failed index d = resolve index False (updateStatus (d\<lparr>failedCount := failedCount d + 1\<rparr>))"

text \<open>
  \<^verbatim>\<open>tempImg.onload\<close>: \<open>drawn\<close> is false when the \<^verbatim>\<open>try\<close> block throws (in \<^verbatim>\<open>drawImage\<close> or in
  the call of \<^verbatim>\<open>toBlob\<close>).
\<close>

definition onload :: "nat \<Rightarrow> bool \<Rightarrow> downloader \<Rightarrow> downloader" where
  "onload index drawn d =
     (if drawn then d\<lparr>tasks := (tasks d)[index := (tasks d ! index)\<lparr>phase := Encoding\<rparr>]\<rparr>
      else task_failed index d)"

definition canShareFiles :: "browser \<Rightarrow> bool" where
  "canShareFiles b = navigator_shares_files b"

definition downloadFile :: "string \<Rightarrow> downloader \<Rightarrow> downloader" where
  "downloadFile name d = d\<lparr>downloads := downloads d @ [name]\<rparr>"

text \<open>\<^verbatim>\<open>downloadWithShareAPI\<close> up to \<^verbatim>\<open>await navigator.share(...)\<close>.\<close>

definition downloadWithShareAPI :: "nat \<Rightarrow> downloader \<Rightarrow> downloader" where
  "downloadWithShareAPI index d =
     d\<lparr>shares := shares d @ [(filename (tasks d ! index), ''Image from '' @ fileName (tasks d ! index))],
       tasks := (tasks d)[index := (tasks d ! index)\<lparr>phase := Sharing\<rparr>]\<rparr>"

text \<open>
  \<^verbatim>\<open>handleImageDownload\<close> (lines 442-465), up to its end or to the \<^verbatim>\<open>await\<close> of the share, and
  what follows that \<^verbatim>\<open>await\<close>: \<open>shared\<close> is what \<^verbatim>\<open>downloadWithShareAPI\<close> returns, true when
  the share promise is fulfilled and false when it is rejected.
\<close>

definition handleImageDownload :: "browser \<Rightarrow> nat \<Rightarrow> downloader \<Rightarrow> downloader" where
  "handleImageDownload b index d =
     (case getPlatform (navigator_userAgent b) of
        Android \<Rightarrow>
          (if canShareFiles b then downloadWithShareAPI index d
           else downloadFile (filename (tasks d ! index)) d)
      | _ \<Rightarrow> downloadFile (filename (tasks d ! index)) d)"

definition handleImageDownload_resume :: "nat \<Rightarrow> bool \<Rightarrow> downloader \<Rightarrow> downloader" where
  "handleImageDownload_resume index shared d =
     (if \<not> shared then downloadFile (filename (tasks d ! index)) d else d)"

text \<open>
  The callback of \<^verbatim>\<open>toBlob\<close> (lines 405-416): \<open>blob\<close> is false for a null blob. After
  \<^verbatim>\<open>await this.handleImageDownload(...)\<close> come the three statements of lines 408-410.
\<close>

definition task_done :: "nat \<Rightarrow> downloader \<Rightarrow> downloader" where
  "task_done index d = resolve index True (updateStatus (d\<lparr>processedCount := processedCount d + 1\<rparr>))"

definition toBlob_callback :: "browser \<Rightarrow> nat \<Rightarrow> bool \<Rightarrow> downloader \<Rightarrow> downloader" where
  "toBlob_callback b index blob d =
     (if blob then
        (let d' = handleImageDownload b index d
         in if phase (tasks d' ! index) = Sharing then d' else task_done index d')
      else task_failed index d)"

definition share_settled :: "nat \<Rightarrow> bool \<Rightarrow> downloader \<Rightarrow> downloader" where
  "share_settled index shared d = task_done index (handleImageDownload_resume index shared d)"

subsection \<open>The event loop\<close>

text \<open>
  What the browser can call back, each one a single uninterrupted step: the timer of image
  \<open>i\<close>, \<^verbatim>\<open>onerror\<close> and \<^verbatim>\<open>onload\<close> of its image, the callback of its \<^verbatim>\<open>toBlob\<close>, the settling of
  its share, and the continuation of \<^verbatim>\<open>processImages\<close> once \<^verbatim>\<open>Promise.all\<close> is fulfilled. An
  event that cannot happen in a state gives \<open>None\<close>.
\<close>

datatype event =
    Timeout nat
  | OnError nat
  | OnLoad nat bool
  | ToBlob nat bool
  | ShareSettled nat bool
  | AllSettled

definition in_phase :: "downloader \<Rightarrow> nat \<Rightarrow> phase \<Rightarrow> bool" where
  "in_phase d i ph = (i < length (tasks d) \<and> phase (tasks d ! i) = ph)"

definition settled :: "task \<Rightarrow> bool" where
  "settled t = (phase t = Done \<or> phase t = Failed)"

fun step :: "browser \<Rightarrow> event \<Rightarrow> downloader \<Rightarrow> downloader option" where
  "step b (Timeout i) d = (if in_phase d i Pending then Some (processImage b i d) else None)"
| "step b (OnError i) d = (if in_phase d i Loading then Some (task_failed i d) else None)"
| "step b (OnLoad i drawn) d = (if in_phase d i Loading then Some (onload i drawn d) else None)"
| "step b (ToBlob i blob) d =
     (if in_phase d i Encoding then Some (toBlob_callback b i blob d) else None)"
| "step b (ShareSettled i shared) d =
     (if in_phase d i Sharing then Some (share_settled i shared d) else None)"
| "step b AllSettled d =
     (if awaiting d \<and> list_all settled (tasks d) then Some (processImages_resume d) else None)"

fun exec :: "browser \<Rightarrow> event list \<Rightarrow> downloader \<Rightarrow> downloader option" where
  "exec b [] d = Some d"
| "exec b (e # es) d = (case step b e d of None \<Rightarrow> None | Some d' \<Rightarrow> exec b es d')"

text \<open>A run: the constructor, then the events in their order.\<close>

definition run :: "browser \<Rightarrow> string list \<Rightarrow> event list \<Rightarrow> downloader option" where
  "run b imgs es = exec b es (ImageDownloader imgs)"

section \<open>The function version\<close>

text \<open>
  The first \<^verbatim>\<open>downloadAllImages\<close> (lines 1-182), as far as it differs: the status element is
  created before the images are counted, the interval is 100 ms, and the final message is
  coloured by the number of successes.
\<close>

definition fn_updateStatus :: "downloader \<Rightarrow> downloader" where
  "fn_updateStatus d =
     (case statusDiv d of
        None \<Rightarrow> d
      | Some st \<Rightarrow>
          d\<lparr>statusDiv := Some (st\<lparr>content :=
              ''Processing: '' @ toString_nat (processedCount d) @ ''/'' @
              toString_nat (length (images d)) @ '', Failed: '' @
              toString_nat (failedCount d)\<rparr>)\<rparr>)"

definition fn_downloadAllImages :: "string list \<Rightarrow> downloader" where
  "fn_downloadAllImages imgs =
     (let d = createStatusDisplay (constructor_fields imgs)
      in if length imgs = 0 then
           d\<lparr>statusDiv := Some \<lparr>background = ''#f44336'', content = ''No images found on this page'',
                                attached = True\<rparr>,
             timers := timers d @ [(3000, RemoveStatusDisplay)]\<rparr>
         else (processImages_loop 100 0 (fn_updateStatus d))\<lparr>awaiting := True\<rparr>)"

definition fn_processImages_resume :: "downloader \<Rightarrow> downloader" where
  "fn_processImages_resume d =
     (case statusDiv d of
        None \<Rightarrow> d\<lparr>awaiting := False\<rparr>
      | Some st \<Rightarrow>
          (let successCount = processedCount d
           in d\<lparr>awaiting := False,
                statusDiv := Some (st\<lparr>background := (if 0 < successCount then ''#4CAF50'' else ''#f44336''),
                  content := ''Download complete! '' @ toString_nat successCount @
                             '' images downloaded. Failed: '' @ toString_nat (failedCount d)\<rparr>),
                timers := timers d @ [(5000, RemoveStatusDisplay)]\<rparr>))"


section \<open>Consistency of a run\<close>

text \<open>
  What holds of the downloader after the constructor and after every event: one task per
  image, the counters count the tasks that are done and that failed and also the calls of
  \<^verbatim>\<open>resolve\<close> with each flag, no task is resolved twice, only settled tasks are resolved,
  nothing is left to do once \<^verbatim>\<open>processImages\<close> is no longer waiting, and while it waits the
  status element exists and no removal is scheduled.
\<close>

definition run_inv :: "downloader \<Rightarrow> bool" where
  "run_inv d \<longleftrightarrow>
     length (tasks d) = length (images d) \<and>
     processedCount d = length (filter (\<lambda>t. phase t = Done) (tasks d)) \<and>
     failedCount d = length (filter (\<lambda>t. phase t = Failed) (tasks d)) \<and>
     processedCount d = length (filter snd (resolved d)) \<and>
     failedCount d = length (filter (\<lambda>r. \<not> snd r) (resolved d)) \<and>
     distinct (map fst (resolved d)) \<and>
     (\<forall>r\<in>set (resolved d). fst r < length (tasks d) \<and> settled (tasks d ! fst r)) \<and>
     (\<not> awaiting d \<longrightarrow> list_all settled (tasks d)) \<and>
     (awaiting d \<longrightarrow> statusDiv d \<noteq> None \<and> (\<forall>t\<in>set (timers d). snd t \<noteq> RemoveStatusDisplay))"

text \<open>
  The names of a task are fixed when it starts, from the page address and its image.
\<close>

definition names_fixed :: "browser \<Rightarrow> downloader \<Rightarrow> bool" where
  "names_fixed b d \<longleftrightarrow>
     (\<forall>i<length (tasks d). phase (tasks d ! i) \<noteq> Pending \<longrightarrow>
        filename (tasks d ! i) =
          processImage_filename (url_parser b) (location_href b) (images d ! i) i \<and>
        fileName (tasks d ! i) = getFileNameFromUrl (url_parser b) (location_href b))"

text \<open>A browser for the examples: an Android phone whose share sheet takes files.\<close>

definition android_phone :: browser where
  "android_phone =
     \<lparr>location_href = ''https://mincondo.github.io/condo/the-line/12'',
      navigator_userAgent = ''Mozilla/5.0 (Linux; Android 13; Pixel 7) Chrome/120.0 Mobile'',
      navigator_shares_files = True,
      url_parser = https_pathname\<rparr>"

text \<open>What a task event does, whatever the event: one unsettled task moves.\<close>

definition task_move :: "downloader \<Rightarrow> downloader \<Rightarrow> nat \<Rightarrow> task \<Rightarrow> bool" where
  "task_move d d' i t' \<longleftrightarrow>
     i < length (tasks d) \<and> \<not> settled (tasks d ! i) \<and> tasks d' = (tasks d)[i := t'] \<and>
     images d' = images d \<and> awaiting d' = awaiting d \<and> timers d' = timers d \<and>
     (statusDiv d' = None \<longleftrightarrow> statusDiv d = None) \<and>
     ((\<not> settled t' \<and> processedCount d' = processedCount d \<and>
       failedCount d' = failedCount d \<and> resolved d' = resolved d) \<or>
      (phase t' = Done \<and> processedCount d' = processedCount d + 1 \<and>
       failedCount d' = failedCount d \<and> resolved d' = resolved d @ [(i, True)]) \<or>
      (phase t' = Failed \<and> processedCount d' = processedCount d \<and>
       failedCount d' = failedCount d + 1 \<and> resolved d' = resolved d @ [(i, False)]))"

section \<open>Properties of the filename prefix\<close>

lemma split_on_nonempty: "split_on c xs \<noteq> []"
  by (induction xs) (auto split: list.splits)

lemma split_on_no_sep: "c \<notin> set s \<Longrightarrow> split_on c s = [s]"
  by (induction s) auto

lemma split_on_append_sep: "c \<notin> set s \<Longrightarrow> split_on c (s @ c # r) = s # split_on c r"
  by (induction s) auto

lemma split_on_join_slash:
  "segs \<noteq> [] \<Longrightarrow> \<forall>s\<in>set segs. CHR ''/'' \<notin> set s \<Longrightarrow>
   split_on CHR ''/'' (join_slash segs) = segs"
  by (induction segs rule: join_slash.induct) (simp_all add: split_on_no_sep split_on_append_sep)

lemma join_slash_split_on: "join_slash (split_on CHR ''/'' s) = s"
proof (induction s)
  case Nil
  then show ?case by simp
next
  case (Cons x xs)
  obtain t ts where r: "split_on CHR ''/'' xs = t # ts"
    using split_on_nonempty [of "CHR ''/''" xs] by (cases "split_on CHR ''/'' xs") auto
  with Cons show ?case by (cases ts) auto
qed

lemma split_on_pieces: "\<forall>s\<in>set (split_on c xs). c \<notin> set s"
  by (induction xs) (auto split: list.splits)

lemma hd_split_on_Nil: "hd (split_on c s) = [] \<longleftrightarrow> s = [] \<or> hd s = c"
  by (cases s) (auto split: list.splits)

lemma split_on_single_Nil: "split_on c s = [[]] \<longleftrightarrow> s = []"
  by (cases s) (auto split: list.splits simp: split_on_nonempty)

lemma last_split_on_Nil: "last (split_on c s) = [] \<longleftrightarrow> s = [] \<or> last s = c"
proof (induction s)
  case Nil
  then show ?case by simp
next
  case (Cons x xs)
  obtain t ts where r: "split_on c xs = t # ts"
    using split_on_nonempty [of c xs] by (cases "split_on c xs") auto
  show ?case
  proof (cases "xs = []")
    case True
    then show ?thesis by simp
  next
    case False
    show ?thesis
    proof (cases "ts = []")
      case True
      with r False have "t \<noteq> []" using split_on_single_Nil [of c xs] by auto
      with Cons False r True show ?thesis by auto
    next
      case ts: False
      with Cons False r show ?thesis by auto
    qed
  qed
qed

lemma takeWhile_eq_replicate: "takeWhile (\<lambda>x. x = c) xs = replicate (length (takeWhile (\<lambda>x. x = c) xs)) c"
  by (induction xs) auto

lemma dropWhile_replicate_eq: "(xs = [] \<or> hd xs \<noteq> c) \<Longrightarrow> dropWhile (\<lambda>x. x = c) (replicate n c @ xs) = xs"
  by (induction n) (cases xs; simp)+

lemma strip_slashes_core:
  assumes "core = [] \<or> (hd core \<noteq> CHR ''/'' \<and> last core \<noteq> CHR ''/'')"
  shows "strip_slashes (replicate a CHR ''/'' @ core @ replicate b CHR ''/'') = core"
proof (cases "core = []")
  case True
  have "replicate a CHR ''/'' @ replicate b CHR ''/'' = replicate (a + b) CHR ''/''"
    by (simp add: replicate_add)
  with True show ?thesis
    using dropWhile_replicate_eq [of "[]" "CHR ''/''" "a + b"] by (simp add: strip_slashes_def)
next
  case False
  with assms have h: "hd core \<noteq> CHR ''/''" and l: "last core \<noteq> CHR ''/''" by auto
  have 1: "dropWhile (\<lambda>c. c = CHR ''/'') (replicate a CHR ''/'' @ core @ replicate b CHR ''/'')
           = core @ replicate b CHR ''/''"
    using dropWhile_replicate_eq [of "core @ replicate b CHR ''/''" "CHR ''/''" a] False h by simp
  have 2: "dropWhile (\<lambda>c. c = CHR ''/'') (replicate b CHR ''/'' @ rev core) = rev core"
    using dropWhile_replicate_eq [of "rev core" "CHR ''/''" b] False l by (simp add: hd_rev)
  show ?thesis by (simp add: strip_slashes_def 1 2)
qed

lemma join_slash_Nil_iff: "join_slash segs = [] \<longleftrightarrow> segs = [] \<or> segs = [[]]"
  by (induction segs rule: join_slash.induct) auto

lemma hd_join_slash: "segs \<noteq> [] \<Longrightarrow> hd segs \<noteq> [] \<Longrightarrow> hd (join_slash segs) = hd (hd segs)"
  by (induction segs rule: join_slash.induct) auto

lemma last_join_slash: "segs \<noteq> [] \<Longrightarrow> last segs \<noteq> [] \<Longrightarrow> last (join_slash segs) = last (last segs)"
  by (induction segs rule: join_slash.induct) (auto simp: join_slash_Nil_iff)

lemma getFileNameFromUrl_segments:
  assumes p: "URL_pathname href = Some (replicate a CHR ''/'' @ join_slash segs @ replicate b CHR ''/'')"
    and ne: "segs \<noteq> []" and ns: "\<forall>s\<in>set segs. CHR ''/'' \<notin> set s"
    and ends: "segs = [[]] \<or> (hd segs \<noteq> [] \<and> last segs \<noteq> [])"
  shows "getFileNameFromUrl URL_pathname href =
     (if 3 \<le> length segs \<and> hd segs = ''condo'' then
        ''condo_'' @ remove_hyphens (segs ! 1) @ ''_'' @
          (if startsWith_hash (last segs) then segs ! (length segs - 2) else last segs)
      else ''images'')"
proof -
  have core: "join_slash segs = [] \<or> (hd (join_slash segs) \<noteq> CHR ''/'' \<and> last (join_slash segs) \<noteq> CHR ''/'')"
  proof (cases "segs = [[]]")
    case True
    then show ?thesis by simp
  next
    case False
    with ends have h: "hd segs \<noteq> []" and l: "last segs \<noteq> []" by auto
    have "hd (hd segs) \<in> set (hd segs)" using h by simp
    moreover have "hd segs \<in> set segs" using ne by simp
    ultimately have 1: "hd (hd segs) \<noteq> CHR ''/''" using ns by metis
    have "last (last segs) \<in> set (last segs)" using l by simp
    moreover have "last segs \<in> set segs" using ne by simp
    ultimately have 2: "last (last segs) \<noteq> CHR ''/''" using ns by metis
    show ?thesis using 1 2 hd_join_slash [OF ne h] last_join_slash [OF ne l] by simp
  qed
  have s: "split_on CHR ''/'' (strip_slashes (replicate a CHR ''/'' @ join_slash segs @ replicate b CHR ''/'')) = segs"
    using strip_slashes_core [OF core] split_on_join_slash [OF ne ns] by simp
  show ?thesis
    using ne by (simp add: getFileNameFromUrl_def p s Let_def hd_conv_nth last_conv_nth)
qed

lemma pathname_shape:
  "\<exists>a b segs. p = replicate a CHR ''/'' @ join_slash segs @ replicate b CHR ''/'' \<and> segs \<noteq> [] \<and>
     (\<forall>s\<in>set segs. CHR ''/'' \<notin> set s) \<and> (segs = [[]] \<or> (hd segs \<noteq> [] \<and> last segs \<noteq> []))"
proof -
  define rest where "rest = dropWhile (\<lambda>c. c = CHR ''/'') p"
  define core where "core = strip_slashes p"
  define a where "a = length (takeWhile (\<lambda>c. c = CHR ''/'') p)"
  define b where "b = length (takeWhile (\<lambda>c. c = CHR ''/'') (rev rest))"
  define segs where "segs = split_on CHR ''/'' core"
  have c: "core = rev (dropWhile (\<lambda>c. c = CHR ''/'') (rev rest))"
    by (simp add: core_def rest_def strip_slashes_def)
  have "p = takeWhile (\<lambda>c. c = CHR ''/'') p @ rest"
    by (simp add: rest_def)
  then have 1: "p = replicate a CHR ''/'' @ rest"
    using takeWhile_eq_replicate [of "CHR ''/''" p] by (simp add: a_def)
  have "rev rest = takeWhile (\<lambda>c. c = CHR ''/'') (rev rest) @ rev core"
    by (simp add: c)
  then have "rev rest = replicate b CHR ''/'' @ rev core"
    using takeWhile_eq_replicate [of "CHR ''/''" "rev rest"] by (simp add: b_def)
  then have "rev (rev rest) = rev (replicate b CHR ''/'' @ rev core)" by simp
  then have 2: "rest = core @ replicate b CHR ''/''" by simp
  have h: "core \<noteq> [] \<Longrightarrow> hd core \<noteq> CHR ''/''"
  proof -
    assume ne: "core \<noteq> []"
    then have rne: "rest \<noteq> []" using 2 by auto
    have "hd rest \<noteq> CHR ''/''"
      using rne hd_dropWhile [of "\<lambda>c. c = CHR ''/''" p] by (simp add: rest_def)
    then show ?thesis using 2 ne by (simp add: hd_append)
  qed
  have l: "core \<noteq> [] \<Longrightarrow> last core \<noteq> CHR ''/''"
  proof -
    assume ne: "core \<noteq> []"
    then have "dropWhile (\<lambda>c. c = CHR ''/'') (rev rest) \<noteq> []" using c by auto
    then have "hd (dropWhile (\<lambda>c. c = CHR ''/'') (rev rest)) \<noteq> CHR ''/''"
      using hd_dropWhile [of "\<lambda>c. c = CHR ''/''" "rev rest"] by simp
    then show ?thesis using c ne by (simp add: last_rev)
  qed
  have j: "join_slash segs = core" by (simp add: segs_def join_slash_split_on)
  have ne: "segs \<noteq> []" by (simp add: segs_def split_on_nonempty)
  have ns: "\<forall>s\<in>set segs. CHR ''/'' \<notin> set s" by (simp add: segs_def split_on_pieces)
  have ends: "segs = [[]] \<or> (hd segs \<noteq> [] \<and> last segs \<noteq> [])"
  proof (cases "core = []")
    case True
    then show ?thesis by (simp add: segs_def)
  next
    case False
    then show ?thesis
      using h l by (simp add: segs_def hd_split_on_Nil last_split_on_Nil)
  qed
  show ?thesis using 1 2 j ne ns ends by blast
qed

text \<open>
  C2, as amended. A page address that does not parse gives \<^verbatim>\<open>"images"\<close>. Otherwise the
  pathname is some slashes, segments joined by single slashes, and some slashes
  (\<open>pathname_shape\<close>: every pathname is), where an empty segment stands between two adjacent
  slashes inside the path. With at least three such segments, empty ones counted, and the
  first one \<^verbatim>\<open>condo\<close>, the prefix is \<^verbatim>\<open>condo_\<close>, the second segment without its hyphens,
  \<^verbatim>\<open>_\<close>, and the last segment, or the one before it when the last starts with \<^verbatim>\<open>#\<close>. For
  every other path the prefix is \<^verbatim>\<open>"images"\<close>. The function is total: nothing is raised.
\<close>

theorem getFileNameFromUrl_prefix:
  "(parse href = None \<longrightarrow> getFileNameFromUrl parse href = ''images'') \<and>
   (parse href = Some (replicate a CHR ''/'' @ join_slash segs @ replicate b CHR ''/'') \<and>
    segs \<noteq> [] \<and> (\<forall>s\<in>set segs. CHR ''/'' \<notin> set s) \<and>
    (segs = [[]] \<or> (hd segs \<noteq> [] \<and> last segs \<noteq> [])) \<longrightarrow>
    getFileNameFromUrl parse href =
      (if 3 \<le> length segs \<and> hd segs = ''condo'' then
         ''condo_'' @ remove_hyphens (segs ! 1) @ ''_'' @
           (if startsWith_hash (last segs) then segs ! (length segs - 2) else last segs)
       else ''images''))"
proof (intro conjI impI)
  assume "parse href = None"
  then show "getFileNameFromUrl parse href = ''images''"
    by (simp add: getFileNameFromUrl_def)
next
  assume "parse href = Some (replicate a CHR ''/'' @ join_slash segs @ replicate b CHR ''/'') \<and>
    segs \<noteq> [] \<and> (\<forall>s\<in>set segs. CHR ''/'' \<notin> set s) \<and>
    (segs = [[]] \<or> (hd segs \<noteq> [] \<and> last segs \<noteq> []))"
  then show "getFileNameFromUrl parse href =
      (if 3 \<le> length segs \<and> hd segs = ''condo'' then
         ''condo_'' @ remove_hyphens (segs ! 1) @ ''_'' @
           (if startsWith_hash (last segs) then segs ! (length segs - 2) else last segs)
       else ''images'')"
    using getFileNameFromUrl_segments [of parse href a segs b] by blast
qed

theorem getFileNameFromUrl_prefix_witness:
  "https_pathname ''condo/the-line/12'' = None \<and>
   getFileNameFromUrl https_pathname ''condo/the-line/12'' = ''images'' \<and>
   https_pathname ''https://mincondo.github.io/condo/the-line/floor-3/12/?tab=photos'' =
     Some (replicate 1 CHR ''/'' @ join_slash [''condo'', ''the-line'', ''floor-3'', ''12''] @
           replicate 1 CHR ''/'') \<and>
   getFileNameFromUrl https_pathname
     ''https://mincondo.github.io/condo/the-line/floor-3/12/?tab=photos'' = ''condo_theline_12''"
proof -
  have n: "https_pathname ''condo/the-line/12'' = None"
    by (simp add: https_pathname_def)
  have p: "https_pathname ''https://mincondo.github.io/condo/the-line/floor-3/12/?tab=photos'' =
     Some (replicate 1 CHR ''/'' @ join_slash [''condo'', ''the-line'', ''floor-3'', ''12''] @
           replicate 1 CHR ''/'')"
    by (simp add: https_pathname_def)
  have r: "getFileNameFromUrl https_pathname ''condo/the-line/12'' = ''images''"
    using getFileNameFromUrl_prefix [of https_pathname "''condo/the-line/12''"] n by blast
  have "getFileNameFromUrl https_pathname
     ''https://mincondo.github.io/condo/the-line/floor-3/12/?tab=photos'' = ''condo_theline_12''"
    using getFileNameFromUrl_prefix [of https_pathname
        "''https://mincondo.github.io/condo/the-line/floor-3/12/?tab=photos''"
        1 "[''condo'', ''the-line'', ''floor-3'', ''12'']" 1] p
    by (simp add: remove_hyphens_def)
  with n p r show ?thesis by blast
qed

text \<open>
  C2 as it is written fails on a path with two adjacent slashes. The path
  \<^verbatim>\<open>/condo//a/b\<close> has the three non-empty segments \<^verbatim>\<open>condo\<close>, \<^verbatim>\<open>a\<close>, \<^verbatim>\<open>b\<close>, so the claim gives
  \<^verbatim>\<open>condo_a_b\<close>; the code takes the empty second piece of the split and gives \<^verbatim>\<open>condo__b\<close>.
  The path \<^verbatim>\<open>/condo//x\<close> has two non-empty segments, so the claim gives \<^verbatim>\<open>images\<close>; the code
  counts three pieces and gives \<^verbatim>\<open>condo__x\<close>.
\<close>

theorem derivePrefix_counterexample:
  "https_pathname ''https://mincondo.github.io/condo//a/b'' = Some ''/condo//a/b'' \<and>
   nonempty_segments ''/condo//a/b'' = [''condo'', ''a'', ''b''] \<and>
   derivePrefix_spec (Some ''/condo//a/b'') = ''condo_a_b'' \<and>
   getFileNameFromUrl https_pathname ''https://mincondo.github.io/condo//a/b'' = ''condo__b'' \<and>
   https_pathname ''https://mincondo.github.io/condo//x'' = Some ''/condo//x'' \<and>
   nonempty_segments ''/condo//x'' = [''condo'', ''x''] \<and>
   derivePrefix_spec (Some ''/condo//x'') = ''images'' \<and>
   getFileNameFromUrl https_pathname ''https://mincondo.github.io/condo//x'' = ''condo__x''"
  by (simp add: https_pathname_def nonempty_segments_def derivePrefix_spec_def
      getFileNameFromUrl_def strip_slashes_def remove_hyphens_def)

section \<open>Properties of the file extension\<close>

lemma dot_not_alnum: "\<not> is_alnum CHR ''.''"
  by (simp add: is_alnum_def)

lemma dropWhile_stops:
  "\<not> P y \<Longrightarrow> dropWhile P (xs @ y # ys) \<noteq> [] \<and> hd (dropWhile P (xs @ y # ys)) \<in> insert y (set xs)"
  by (induction xs) auto

lemma match_ext_no_dot: "CHR ''.'' \<notin> set s \<Longrightarrow> match_ext s = None"
  by (induction s) auto

lemma match_ext_skip:
  "CHR ''?'' \<notin> set pre \<Longrightarrow> CHR ''#'' \<notin> set pre \<Longrightarrow>
   match_ext (pre @ CHR ''.'' # s) = match_ext (CHR ''.'' # s)"
proof (induction pre)
  case Nil
  then show ?case by simp
next
  case (Cons c pre)
  define r where "r = pre @ CHR ''.'' # s"
  have stop: "dropWhile is_alnum r \<noteq> [] \<and> hd (dropWhile is_alnum r) \<in> insert CHR ''.'' (set pre)"
    unfolding r_def using dropWhile_stops [of is_alnum "CHR ''.''" pre s] dot_not_alnum by blast
  then have "hd (dropWhile is_alnum r) \<notin> {CHR ''?'', CHR ''#''}"
    using Cons.prems by auto
  with stop have "match_ext (c # r) = match_ext r"
    by auto
  with Cons show ?case by (simp add: r_def)
qed

lemma last_dot_split:
  "CHR ''.'' \<in> set p \<Longrightarrow>
   p = before_last_dot p @ CHR ''.'' # after_last_dot p \<and> CHR ''.'' \<notin> set (after_last_dot p)"
proof -
  assume d: "CHR ''.'' \<in> set p"
  let ?P = "\<lambda>c. c \<noteq> CHR ''.''"
  have ne: "dropWhile ?P (rev p) \<noteq> []" using d by (simp add: dropWhile_eq_Nil_conv)
  have h: "hd (dropWhile ?P (rev p)) = CHR ''.''"
    using hd_dropWhile [OF ne] by simp
  have "dropWhile ?P (rev p) = CHR ''.'' # drop 1 (dropWhile ?P (rev p))"
    using ne h by (cases "dropWhile ?P (rev p)") auto
  then have "rev p = takeWhile ?P (rev p) @ CHR ''.'' # drop 1 (dropWhile ?P (rev p))"
    using takeWhile_dropWhile_id [of ?P "rev p"] by simp
  then have "rev (rev p) = rev (takeWhile ?P (rev p) @ CHR ''.'' # drop 1 (dropWhile ?P (rev p)))"
    by simp
  then have 1: "p = before_last_dot p @ CHR ''.'' # after_last_dot p"
    by (simp add: before_last_dot_def after_last_dot_def)
  have 2: "CHR ''.'' \<notin> set (after_last_dot p)"
    using set_takeWhileD [of "CHR ''.''" ?P "rev p"] by (auto simp: after_last_dot_def)
  show ?thesis using 1 2 by blast
qed

lemma match_ext_spec:
  assumes "CHR ''?'' \<notin> set (before_last_dot p)" and "CHR ''#'' \<notin> set (before_last_dot p)"
  shows "map_option (map toLowerCase_char) (match_ext p) = deriveExtension_spec p"
proof (cases "CHR ''.'' \<in> set p")
  case False
  then show ?thesis by (simp add: match_ext_no_dot deriveExtension_spec_def)
next
  case True
  from last_dot_split [OF True]
  have p: "p = before_last_dot p @ CHR ''.'' # after_last_dot p"
    and nd: "CHR ''.'' \<notin> set (after_last_dot p)" by auto
  have "match_ext p = match_ext (before_last_dot p @ CHR ''.'' # after_last_dot p)"
    using p by simp
  also have "\<dots> = match_ext (CHR ''.'' # after_last_dot p)"
    using match_ext_skip [OF assms] by simp
  finally have "match_ext p = match_ext (CHR ''.'' # after_last_dot p)" .
  then show ?thesis
    using True nd by (simp add: deriveExtension_spec_def Let_def match_ext_no_dot)
qed

lemma match_ext_alnum: "match_ext p = Some m \<Longrightarrow> m \<noteq> [] \<and> (\<forall>c\<in>set m. is_alnum c)"
  by (induction p) (auto split: if_splits dest: set_takeWhileD)

text \<open>
  C5. An image address that does not parse gives no extension. A pathname of the URL
  interface holds neither \<^verbatim>\<open>?\<close> nor \<^verbatim>\<open>#\<close>, which start the query and the fragment; when
  none stands before the last dot of the path, the result is the specification's: the
  letters and digits after the last dot, in lower case, when a \<^verbatim>\<open>?\<close>, a \<^verbatim>\<open>#\<close> or the end
  follows them, and nothing otherwise. The caller's \<^verbatim>\<open>|| "jpg"\<close> replaces exactly the missing
  extension.
\<close>

theorem getFileExtension_suffix:
  "(parse url = None \<longrightarrow> getFileExtension parse url = None) \<and>
   (parse url = Some p \<and> CHR ''?'' \<notin> set (before_last_dot p) \<and>
    CHR ''#'' \<notin> set (before_last_dot p) \<longrightarrow>
      getFileExtension parse url = deriveExtension_spec p) \<and>
   extension_or_jpg (getFileExtension parse url) =
     (case getFileExtension parse url of None \<Rightarrow> ''jpg'' | Some e \<Rightarrow> e)"
proof (intro conjI impI)
  show "getFileExtension parse url = None" if "parse url = None"
    using that by (simp add: getFileExtension_def)
next
  assume h: "parse url = Some p \<and> CHR ''?'' \<notin> set (before_last_dot p) \<and>
    CHR ''#'' \<notin> set (before_last_dot p)"
  then have "map_option (map toLowerCase_char) (match_ext p) = deriveExtension_spec p"
    using match_ext_spec by blast
  then show "getFileExtension parse url = deriveExtension_spec p"
    using h by (auto simp: getFileExtension_def split: option.splits)
next
  show "extension_or_jpg (getFileExtension parse url) =
     (case getFileExtension parse url of None \<Rightarrow> ''jpg'' | Some e \<Rightarrow> e)"
    by (auto simp: extension_or_jpg_def getFileExtension_def split: option.splits
        dest: match_ext_alnum)
qed

theorem getFileExtension_suffix_witness:
  "https_pathname ''photo.png'' = None \<and>
   getFileExtension https_pathname ''photo.png'' = None \<and>
   https_pathname ''https://cdn.example.com/v1.2/room.tar.JPG?w=800'' = Some ''/v1.2/room.tar.JPG'' \<and>
   CHR ''?'' \<notin> set (before_last_dot ''/v1.2/room.tar.JPG'') \<and>
   CHR ''#'' \<notin> set (before_last_dot ''/v1.2/room.tar.JPG'') \<and>
   deriveExtension_spec ''/v1.2/room.tar.JPG'' = Some ''jpg'' \<and>
   getFileExtension https_pathname ''https://cdn.example.com/v1.2/room.tar.JPG?w=800'' = Some ''jpg''"
proof -
  have n: "https_pathname ''photo.png'' = None"
    by (simp add: https_pathname_def)
  have p: "https_pathname ''https://cdn.example.com/v1.2/room.tar.JPG?w=800'' = Some ''/v1.2/room.tar.JPG''"
    by (simp add: https_pathname_def)
  have q: "CHR ''?'' \<notin> set (before_last_dot ''/v1.2/room.tar.JPG'') \<and>
           CHR ''#'' \<notin> set (before_last_dot ''/v1.2/room.tar.JPG'')"
    by (simp add: before_last_dot_def)
  have s: "deriveExtension_spec ''/v1.2/room.tar.JPG'' = Some ''jpg''"
    by code_simp
  have 1: "getFileExtension https_pathname ''photo.png'' = None"
    using getFileExtension_suffix [of https_pathname "''photo.png''"] n by blast
  have 2: "getFileExtension https_pathname ''https://cdn.example.com/v1.2/room.tar.JPG?w=800'' =
           deriveExtension_spec ''/v1.2/room.tar.JPG''"
    using getFileExtension_suffix [of https_pathname
        "''https://cdn.example.com/v1.2/room.tar.JPG?w=800''" "''/v1.2/room.tar.JPG''"] p q
    by blast
  show ?thesis using n p q s 1 2 by simp
qed

section \<open>Properties of the per-image filenames\<close>

lemma toString_nat_digits: "\<forall>c\<in>set (toString_nat n). 48 \<le> (of_char c :: nat) \<and> (of_char c :: nat) \<le> 57"
proof (induction n rule: toString_nat.induct)
  case (1 n)
  show ?case
  proof (cases "n < 10")
    case True
    then show ?thesis by (subst toString_nat.simps) simp
  next
    case False
    have "n mod 10 < 10" by simp
    then have "48 + n mod 10 < 256" by linarith
    with 1 False show ?thesis by (subst toString_nat.simps) auto
  qed
qed

lemma toString_nat_value:
  "foldl (\<lambda>acc c. acc * 10 + ((of_char c :: nat) - 48)) 0 (toString_nat n) = n"
proof (induction n rule: toString_nat.induct)
  case (1 n)
  show ?case
  proof (cases "n < 10")
    case True
    then show ?thesis by (subst toString_nat.simps) simp
  next
    case False
    have "n mod 10 < 10" by simp
    then have "(48 + n mod 10) mod 256 = 48 + n mod 10" by simp
    with 1 False show ?thesis by (subst toString_nat.simps) simp
  qed
qed

lemma toString_nat_inj: "toString_nat m = toString_nat n \<Longrightarrow> m = n"
  by (metis toString_nat_value)

lemma sep_unique:
  "xs @ c # ys = xs' @ c # ys' \<Longrightarrow> c \<notin> set xs \<Longrightarrow> c \<notin> set xs' \<Longrightarrow> xs = xs' \<and> ys = ys'"
proof (induction xs arbitrary: xs')
  case Nil
  then show ?case by (cases xs') auto
next
  case (Cons x xs)
  then show ?case by (cases xs') auto
qed

lemma toLowerCase_not_dot: "is_alnum c \<Longrightarrow> toLowerCase_char c \<noteq> CHR ''.''"
  by (auto simp: is_alnum_def toLowerCase_char_def Let_def
      dest: arg_cong [where f = "of_char :: char \<Rightarrow> nat"])

lemma extension_no_dot: "CHR ''.'' \<notin> set (extension_or_jpg (getFileExtension parse url))"
proof (cases "getFileExtension parse url")
  case None
  then show ?thesis by (simp add: extension_or_jpg_def)
next
  case (Some e)
  then obtain p m where "match_ext p = Some m" and e: "e = map toLowerCase_char m"
    by (auto simp: getFileExtension_def split: option.splits)
  then have "\<forall>c\<in>set m. is_alnum c" using match_ext_alnum by blast
  then have "\<forall>c\<in>set e. c \<noteq> CHR ''.''" using e toLowerCase_not_dot by auto
  then have "CHR ''.'' \<notin> set e" by blast
  with Some show ?thesis by (simp add: extension_or_jpg_def)
qed

lemma toString_nat_no_underscore: "CHR ''_'' \<notin> set (toString_nat n)"
  using toString_nat_digits [of n] by fastforce

lemma toString_nat_no_dot: "CHR ''.'' \<notin> set (toString_nat n)"
  using toString_nat_digits [of n] by fastforce

lemma name_index_unique:
  assumes eq: "p @ ''_'' @ toString_nat m @ ''.'' @ e = p' @ ''_'' @ toString_nat n @ ''.'' @ e'"
    and e: "CHR ''.'' \<notin> set e" and e': "CHR ''.'' \<notin> set e'"
  shows "m = n"
proof -
  have "rev (p @ ''_'' @ toString_nat m @ ''.'' @ e) = rev (p' @ ''_'' @ toString_nat n @ ''.'' @ e')"
    using eq by simp
  then have 1: "rev e @ CHR ''.'' # (rev (toString_nat m) @ CHR ''_'' # rev p) =
                rev e' @ CHR ''.'' # (rev (toString_nat n) @ CHR ''_'' # rev p')"
    by simp
  have "rev (toString_nat m) @ CHR ''_'' # rev p = rev (toString_nat n) @ CHR ''_'' # rev p'"
    using sep_unique [OF 1] e e' by simp
  then have "rev (toString_nat m) = rev (toString_nat n)"
    using sep_unique [of "rev (toString_nat m)" "CHR ''_''" "rev p" "rev (toString_nat n)" "rev p'"]
      toString_nat_no_underscore by simp
  then show ?thesis using toString_nat_inj by simp
qed

text \<open>
  C6. A filename is the prefix, \<^verbatim>\<open>_\<close>, the decimal digits of the index plus one, a dot, and
  the extension or \<^verbatim>\<open>jpg\<close>. Two filenames with different indices differ, whatever the page
  address and the image sources were when each was formed, so the filenames of a run are
  pairwise distinct.
\<close>

theorem processImage_filename_distinct:
  "processImage_filename parse href url index =
     getFileNameFromUrl parse href @ ''_'' @ toString_nat (index + 1) @ ''.'' @
       (case getFileExtension parse url of None \<Rightarrow> ''jpg'' | Some e \<Rightarrow> e) \<and>
   (i \<noteq> j \<longrightarrow>
      processImage_filename parse href url_i i \<noteq> processImage_filename parse href' url_j j) \<and>
   distinct (run_filenames parse hrefs imgs)"
proof (intro conjI impI)
  have "extension_or_jpg (getFileExtension parse url) =
     (case getFileExtension parse url of None \<Rightarrow> ''jpg'' | Some e \<Rightarrow> e)"
    by (auto simp: extension_or_jpg_def getFileExtension_def split: option.splits
        dest: match_ext_alnum)
  then show "processImage_filename parse href url index =
     getFileNameFromUrl parse href @ ''_'' @ toString_nat (index + 1) @ ''.'' @
       (case getFileExtension parse url of None \<Rightarrow> ''jpg'' | Some e \<Rightarrow> e)"
    by (simp add: processImage_filename_def)
next
  have ne: "processImage_filename parse h u m \<noteq> processImage_filename parse h' u' n"
    if "m \<noteq> n" for h h' u u' m n
  proof
    assume "processImage_filename parse h u m = processImage_filename parse h' u' n"
    then have "m + 1 = n + 1"
      unfolding processImage_filename_def Let_def
      using name_index_unique extension_no_dot by blast
    with that show False by simp
  qed
  show "processImage_filename parse href url_i i \<noteq> processImage_filename parse href' url_j j"
    if "i \<noteq> j" using ne that by blast
  have "inj_on (\<lambda>i. processImage_filename parse (hrefs i) (imgs ! i) i) (set [0..<length imgs])"
    unfolding inj_on_def using ne by blast
  then show "distinct (run_filenames parse hrefs imgs)"
    by (simp add: run_filenames_def distinct_map)
qed

theorem processImage_filename_distinct_witness:
  "(0::nat) \<noteq> 1 \<and>
   processImage_filename https_pathname ''https://mincondo.github.io/condo/the-line/12''
     ''https://cdn.example.com/room.png'' 0 \<noteq>
   processImage_filename https_pathname ''https://mincondo.github.io/condo/the-line/12''
     ''https://cdn.example.com/room.png'' 1 \<and>
   processImage_filename https_pathname ''https://mincondo.github.io/condo/the-line/12''
     ''https://cdn.example.com/room.png'' 0 = ''condo_theline_12_1.png''"
proof -
  have d: "(0::nat) \<noteq> 1" by simp
  have v: "processImage_filename https_pathname ''https://mincondo.github.io/condo/the-line/12''
     ''https://cdn.example.com/room.png'' 0 = ''condo_theline_12_1.png''"
    by code_simp
  show ?thesis
    using d v processImage_filename_distinct [where parse = https_pathname and i = 0 and j = 1
        and href = "''https://mincondo.github.io/condo/the-line/12''"
        and href' = "''https://mincondo.github.io/condo/the-line/12''"
        and url_i = "''https://cdn.example.com/room.png''"
        and url_j = "''https://cdn.example.com/room.png''"]
    by blast
qed

section \<open>Properties of the platform detection\<close>

lemma starts_with_iff: "starts_with s tok \<longleftrightarrow> (\<exists>post. s = tok @ post)"
  by (induction s tok rule: starts_with.induct) auto

lemma has_substring_iff: "has_substring s tok \<longleftrightarrow> occurs_in tok s"
proof (induction s)
  case Nil
  then show ?case by (cases tok) (auto simp: occurs_in_def)
next
  case (Cons c cs)
  have "occurs_in tok (c # cs) \<longleftrightarrow> (\<exists>post. c # cs = tok @ post) \<or> occurs_in tok cs"
  proof
    assume "occurs_in tok (c # cs)"
    then obtain pre post where e: "c # cs = pre @ tok @ post" by (auto simp: occurs_in_def)
    show "(\<exists>post. c # cs = tok @ post) \<or> occurs_in tok cs"
    proof (cases pre)
      case Nil
      with e show ?thesis by auto
    next
      case (Cons x pre')
      with e have "cs = pre' @ tok @ post" by simp
      then show ?thesis by (auto simp: occurs_in_def)
    qed
  next
    assume "(\<exists>post. c # cs = tok @ post) \<or> occurs_in tok cs"
    then show "occurs_in tok (c # cs)"
    proof
      assume "\<exists>post. c # cs = tok @ post"
      then obtain post where "c # cs = [] @ tok @ post" by auto
      then show ?thesis unfolding occurs_in_def by blast
    next
      assume "occurs_in tok cs"
      then obtain pre post where "cs = pre @ tok @ post" by (auto simp: occurs_in_def)
      then have "c # cs = (c # pre) @ tok @ post" by simp
      then show ?thesis unfolding occurs_in_def by blast
    qed
  qed
  with Cons show ?case by (simp add: starts_with_iff)
qed

lemma test_ios_iff: "test_ios ua \<longleftrightarrow> matches_ios ua"
  by (auto simp: test_ios_def matches_ios_def list_ex_iff has_substring_iff)

lemma test_android_iff: "test_android ua \<longleftrightarrow> matches_android ua"
  by (auto simp: test_android_def matches_android_def list_ex_iff has_substring_iff)

text \<open>
  C10. A user agent in which both an iOS token (case-sensitively) and an Android-family
  token (up to case) occur is classed as iOS, and the class is desktop exactly when no token
  of either set occurs.
\<close>

theorem getPlatform_precedence:
  "(matches_ios ua \<and> matches_android ua \<longrightarrow> getPlatform ua = Ios) \<and>
   (getPlatform ua = Desktop \<longleftrightarrow> \<not> matches_ios ua \<and> \<not> matches_android ua)"
  by (simp add: getPlatform_def test_ios_iff test_android_iff)

theorem getPlatform_precedence_witness:
  "matches_ios ''Mozilla/5.0 (iPhone; CPU iPhone OS 16_0 like Mac OS X) ANDROID'' \<and>
   matches_android ''Mozilla/5.0 (iPhone; CPU iPhone OS 16_0 like Mac OS X) ANDROID'' \<and>
   getPlatform ''Mozilla/5.0 (iPhone; CPU iPhone OS 16_0 like Mac OS X) ANDROID'' = Ios"
proof -
  have "test_ios ''Mozilla/5.0 (iPhone; CPU iPhone OS 16_0 like Mac OS X) ANDROID''"
    by code_simp
  then have i: "matches_ios ''Mozilla/5.0 (iPhone; CPU iPhone OS 16_0 like Mac OS X) ANDROID''"
    by (simp add: test_ios_iff)
  have "test_android ''Mozilla/5.0 (iPhone; CPU iPhone OS 16_0 like Mac OS X) ANDROID''"
    by code_simp
  then have a: "matches_android ''Mozilla/5.0 (iPhone; CPU iPhone OS 16_0 like Mac OS X) ANDROID''"
    by (simp add: test_android_iff)
  show ?thesis
    using i a getPlatform_precedence [of "''Mozilla/5.0 (iPhone; CPU iPhone OS 16_0 like Mac OS X) ANDROID''"]
    by blast
qed

section \<open>Properties of a run\<close>

lemma count_update:
  "i < length ts \<Longrightarrow>
   length (filter P (ts[i := t])) + (if P (ts ! i) then 1 else 0) =
   length (filter P ts) + (if P t then 1 else 0)"
proof (induction ts arbitrary: i)
  case Nil
  then show ?case by simp
next
  case (Cons a ts)
  then show ?case by (cases i) auto
qed

lemma updateStatus_fields [simp]:
  "processedCount (updateStatus d) = processedCount d"
  "failedCount (updateStatus d) = failedCount d"
  "images (updateStatus d) = images d"
  "timers (updateStatus d) = timers d"
  "tasks (updateStatus d) = tasks d"
  "awaiting (updateStatus d) = awaiting d"
  "downloads (updateStatus d) = downloads d"
  "shares (updateStatus d) = shares d"
  "resolved (updateStatus d) = resolved d"
  "statusDiv (updateStatus d) = None \<longleftrightarrow> statusDiv d = None"
  by (simp_all add: updateStatus_def split: option.splits)

lemma task_failed_fields [simp]:
  "processedCount (task_failed i d) = processedCount d"
  "failedCount (task_failed i d) = failedCount d + 1"
  "images (task_failed i d) = images d"
  "timers (task_failed i d) = timers d"
  "tasks (task_failed i d) = (tasks d)[i := (tasks d ! i)\<lparr>phase := Failed\<rparr>]"
  "awaiting (task_failed i d) = awaiting d"
  "downloads (task_failed i d) = downloads d"
  "shares (task_failed i d) = shares d"
  "resolved (task_failed i d) = resolved d @ [(i, False)]"
  "statusDiv (task_failed i d) = None \<longleftrightarrow> statusDiv d = None"
  by (simp_all add: task_failed_def resolve_def)

lemma task_done_fields [simp]:
  "processedCount (task_done i d) = processedCount d + 1"
  "failedCount (task_done i d) = failedCount d"
  "images (task_done i d) = images d"
  "timers (task_done i d) = timers d"
  "tasks (task_done i d) = (tasks d)[i := (tasks d ! i)\<lparr>phase := Done\<rparr>]"
  "awaiting (task_done i d) = awaiting d"
  "downloads (task_done i d) = downloads d"
  "shares (task_done i d) = shares d"
  "resolved (task_done i d) = resolved d @ [(i, True)]"
  "statusDiv (task_done i d) = None \<longleftrightarrow> statusDiv d = None"
  by (simp_all add: task_done_def resolve_def)

lemma downloadFile_fields [simp]:
  "processedCount (downloadFile n d) = processedCount d"
  "failedCount (downloadFile n d) = failedCount d"
  "images (downloadFile n d) = images d"
  "timers (downloadFile n d) = timers d"
  "tasks (downloadFile n d) = tasks d"
  "awaiting (downloadFile n d) = awaiting d"
  "downloads (downloadFile n d) = downloads d @ [n]"
  "shares (downloadFile n d) = shares d"
  "resolved (downloadFile n d) = resolved d"
  "statusDiv (downloadFile n d) = statusDiv d"
  by (simp_all add: downloadFile_def)

lemma downloadWithShareAPI_fields [simp]:
  "processedCount (downloadWithShareAPI i d) = processedCount d"
  "failedCount (downloadWithShareAPI i d) = failedCount d"
  "images (downloadWithShareAPI i d) = images d"
  "timers (downloadWithShareAPI i d) = timers d"
  "tasks (downloadWithShareAPI i d) = (tasks d)[i := (tasks d ! i)\<lparr>phase := Sharing\<rparr>]"
  "awaiting (downloadWithShareAPI i d) = awaiting d"
  "downloads (downloadWithShareAPI i d) = downloads d"
  "shares (downloadWithShareAPI i d) =
     shares d @ [(filename (tasks d ! i), ''Image from '' @ fileName (tasks d ! i))]"
  "resolved (downloadWithShareAPI i d) = resolved d"
  "statusDiv (downloadWithShareAPI i d) = statusDiv d"
  by (simp_all add: downloadWithShareAPI_def)

lemma processImage_fields [simp]:
  "processedCount (processImage b i d) = processedCount d"
  "failedCount (processImage b i d) = failedCount d"
  "images (processImage b i d) = images d"
  "timers (processImage b i d) = timers d"
  "tasks (processImage b i d) =
     (tasks d)[i := \<lparr>phase = Loading,
        filename = processImage_filename (url_parser b) (location_href b) (images d ! i) i,
        fileName = getFileNameFromUrl (url_parser b) (location_href b)\<rparr>]"
  "awaiting (processImage b i d) = awaiting d"
  "downloads (processImage b i d) = downloads d"
  "shares (processImage b i d) = shares d"
  "resolved (processImage b i d) = resolved d"
  "statusDiv (processImage b i d) = statusDiv d"
  by (simp_all add: processImage_def Let_def)

lemma step_task:
  assumes "step b e d = Some d'" and "e \<noteq> AllSettled"
  shows "\<exists>i t'. task_move d d' i t'"
proof (cases e)
  case (Timeout i)
  with assms have "task_move d d' i (tasks d' ! i)"
    by (auto simp: task_move_def in_phase_def settled_def split: if_splits)
  then show ?thesis by blast
next
  case (OnError i)
  with assms have "task_move d d' i (tasks d' ! i)"
    by (auto simp: task_move_def in_phase_def settled_def split: if_splits)
  then show ?thesis by blast
next
  case (OnLoad i drawn)
  with assms have "task_move d d' i (tasks d' ! i)"
    by (auto simp: task_move_def in_phase_def settled_def onload_def split: if_splits)
  then show ?thesis by blast
next
  case (ToBlob i blob)
  with assms have "task_move d d' i (tasks d' ! i)"
    by (auto simp: task_move_def in_phase_def settled_def toBlob_callback_def
          handleImageDownload_def Let_def split: if_splits platform.splits)
  then show ?thesis by blast
next
  case (ShareSettled i shared)
  with assms have "task_move d d' i (tasks d' ! i)"
    by (auto simp: task_move_def in_phase_def settled_def share_settled_def
          handleImageDownload_resume_def split: if_splits)
  then show ?thesis by blast
next
  case AllSettled
  with assms show ?thesis by simp
qed

lemma processImages_resume_fields [simp]:
  "processedCount (processImages_resume d) = processedCount d"
  "failedCount (processImages_resume d) = failedCount d"
  "images (processImages_resume d) = images d"
  "tasks (processImages_resume d) = tasks d"
  "awaiting (processImages_resume d) = False"
  "downloads (processImages_resume d) = downloads d"
  "shares (processImages_resume d) = shares d"
  "resolved (processImages_resume d) = resolved d"
  by (simp_all add: processImages_resume_def showSuccess_def showError_def Let_def
      split: option.splits)

lemma processImages_loop_fields:
  "i \<le> length (images d) \<Longrightarrow>
   tasks (processImages_loop k i d) =
     tasks d @ replicate (length (images d) - i) \<lparr>phase = Pending, filename = [], fileName = []\<rparr> \<and>
   timers (processImages_loop k i d) =
     timers d @ map (\<lambda>j. (j * k, ProcessImage j)) [i..<length (images d)] \<and>
   images (processImages_loop k i d) = images d \<and>
   processedCount (processImages_loop k i d) = processedCount d \<and>
   failedCount (processImages_loop k i d) = failedCount d \<and>
   statusDiv (processImages_loop k i d) = statusDiv d \<and>
   awaiting (processImages_loop k i d) = awaiting d \<and>
   downloads (processImages_loop k i d) = downloads d \<and>
   shares (processImages_loop k i d) = shares d \<and>
   resolved (processImages_loop k i d) = resolved d"
proof (induction k i d rule: processImages_loop.induct)
  case (1 k i d)
  show ?case
  proof (cases "i < length (images d)")
    case True
    let ?d = "d\<lparr>timers := timers d @ [(i * k, ProcessImage i)],
               tasks := tasks d @ [\<lparr>phase = Pending, filename = [], fileName = []\<rparr>]\<rparr>"
    have ih: "tasks (processImages_loop k (i + 1) ?d) =
        tasks ?d @ replicate (length (images ?d) - (i + 1)) \<lparr>phase = Pending, filename = [], fileName = []\<rparr> \<and>
      timers (processImages_loop k (i + 1) ?d) =
        timers ?d @ map (\<lambda>j. (j * k, ProcessImage j)) [i + 1..<length (images ?d)] \<and>
      images (processImages_loop k (i + 1) ?d) = images ?d \<and>
      processedCount (processImages_loop k (i + 1) ?d) = processedCount ?d \<and>
      failedCount (processImages_loop k (i + 1) ?d) = failedCount ?d \<and>
      statusDiv (processImages_loop k (i + 1) ?d) = statusDiv ?d \<and>
      awaiting (processImages_loop k (i + 1) ?d) = awaiting ?d \<and>
      downloads (processImages_loop k (i + 1) ?d) = downloads ?d \<and>
      shares (processImages_loop k (i + 1) ?d) = shares ?d \<and>
      resolved (processImages_loop k (i + 1) ?d) = resolved ?d"
      using 1 True by simp
    have r: "replicate (length (images d) - i) x = x # replicate (length (images d) - (i + 1)) x" for x :: task
      using True by (cases "length (images d) - i") auto
    have u: "[i..<length (images d)] = i # [i + 1..<length (images d)]"
      using True by (simp add: upt_conv_Cons)
    have e: "processImages_loop k i d = processImages_loop k (i + 1) ?d"
      using True by (subst processImages_loop.simps) simp
    show ?thesis
      unfolding e using ih by (simp add: r u)
  next
    case False
    with 1 have n: "i = length (images d)" by simp
    have "processImages_loop k i d = d"
      using False by (subst processImages_loop.simps) simp
    with n show ?thesis by simp
  qed
qed

lemma ImageDownloader_empty: "ImageDownloader [] = constructor_fields []"
  by (simp add: ImageDownloader_def init_def showError_def constructor_fields_def)

lemma ImageDownloader_fields:
  "tasks (ImageDownloader imgs) =
     replicate (length imgs) \<lparr>phase = Pending, filename = [], fileName = []\<rparr>"
  "timers (ImageDownloader imgs) = map (\<lambda>j. (j * 200, ProcessImage j)) [0..<length imgs]"
  "images (ImageDownloader imgs) = imgs"
  "processedCount (ImageDownloader imgs) = 0"
  "failedCount (ImageDownloader imgs) = 0"
  "awaiting (ImageDownloader imgs) \<longleftrightarrow> imgs \<noteq> []"
  "resolved (ImageDownloader imgs) = []"
  "downloads (ImageDownloader imgs) = []"
  "shares (ImageDownloader imgs) = []"
  "imgs \<noteq> [] \<Longrightarrow> statusDiv (ImageDownloader imgs) \<noteq> None"
proof -
  define d0 where "d0 = updateStatus (createStatusDisplay (constructor_fields imgs))"
  define L where "L = processImages_loop 200 0 d0"
  have i: "images d0 = imgs"
    by (simp add: d0_def createStatusDisplay_def constructor_fields_def)
  have c: "tasks d0 = []" "timers d0 = []" "processedCount d0 = 0" "failedCount d0 = 0"
    "resolved d0 = []" "downloads d0 = []" "shares d0 = []" "statusDiv d0 \<noteq> None"
    by (simp_all add: d0_def createStatusDisplay_def constructor_fields_def)
  have f: "tasks L = replicate (length imgs) \<lparr>phase = Pending, filename = [], fileName = []\<rparr>"
    "timers L = map (\<lambda>j. (j * 200, ProcessImage j)) [0..<length imgs]"
    "images L = imgs" "processedCount L = 0" "failedCount L = 0" "statusDiv L \<noteq> None"
    "resolved L = []" "downloads L = []" "shares L = []"
    using processImages_loop_fields [of 0 d0 200] i c by (simp_all add: L_def)
  have e: "ImageDownloader imgs = (if imgs = [] then constructor_fields [] else L\<lparr>awaiting := True\<rparr>)"
    by (simp add: ImageDownloader_empty)
       (simp add: ImageDownloader_def init_def processImages_def L_def d0_def constructor_fields_def)
  show "tasks (ImageDownloader imgs) =
     replicate (length imgs) \<lparr>phase = Pending, filename = [], fileName = []\<rparr>"
    unfolding e using f by (simp add: constructor_fields_def)
  show "timers (ImageDownloader imgs) = map (\<lambda>j. (j * 200, ProcessImage j)) [0..<length imgs]"
    unfolding e using f by (simp add: constructor_fields_def)
  show "images (ImageDownloader imgs) = imgs"
    unfolding e using f by (simp add: constructor_fields_def)
  show "processedCount (ImageDownloader imgs) = 0"
    unfolding e using f by (simp add: constructor_fields_def)
  show "failedCount (ImageDownloader imgs) = 0"
    unfolding e using f by (simp add: constructor_fields_def)
  show "awaiting (ImageDownloader imgs) \<longleftrightarrow> imgs \<noteq> []"
    unfolding e using f by (simp add: constructor_fields_def)
  show "resolved (ImageDownloader imgs) = []"
    unfolding e using f by (simp add: constructor_fields_def)
  show "downloads (ImageDownloader imgs) = []"
    unfolding e using f by (simp add: constructor_fields_def)
  show "shares (ImageDownloader imgs) = []"
    unfolding e using f by (simp add: constructor_fields_def)
  show "statusDiv (ImageDownloader imgs) \<noteq> None" if "imgs \<noteq> []"
    unfolding e using f that by simp
qed

lemma run_inv_init: "run_inv (ImageDownloader imgs)"
  by (auto simp: run_inv_def ImageDownloader_fields settled_def list_all_iff)

lemma count_settled:
  "length (filter (\<lambda>t. phase t = Done) ts) + length (filter (\<lambda>t. phase t = Failed) ts) =
   length (filter settled ts)"
  by (induction ts) (auto simp: settled_def)

lemma filter_all_iff: "length (filter P xs) = length xs \<longleftrightarrow> (\<forall>x\<in>set xs. P x)"
proof (induction xs)
  case Nil
  then show ?case by simp
next
  case (Cons a xs)
  show ?case
  proof (cases "P a")
    case True
    with Cons show ?thesis by simp
  next
    case False
    have "length (filter P xs) \<le> length xs" by simp
    then have "length (filter P xs) \<noteq> Suc (length xs)" by linarith
    with False show ?thesis by simp
  qed
qed

lemma step_AllSettled:
  "step b AllSettled d = Some d' \<Longrightarrow>
   awaiting d \<and> list_all settled (tasks d) \<and> d' = processImages_resume d"
  by (simp split: if_splits)

lemma task_move_inv:
  assumes m: "task_move d d' i t'" and inv: "run_inv d"
  shows "run_inv d'"
proof -
  from m have i: "i < length (tasks d)" and u: "\<not> settled (tasks d ! i)"
    and t: "tasks d' = (tasks d)[i := t']" and im: "images d' = images d"
    and aw: "awaiting d' = awaiting d" and ti: "timers d' = timers d"
    and st: "statusDiv d' = None \<longleftrightarrow> statusDiv d = None"
    by (simp_all add: task_move_def)
  from m have c: "(\<not> settled t' \<and> processedCount d' = processedCount d \<and>
             failedCount d' = failedCount d \<and> resolved d' = resolved d) \<or>
            (phase t' = Done \<and> processedCount d' = processedCount d + 1 \<and>
             failedCount d' = failedCount d \<and> resolved d' = resolved d @ [(i, True)]) \<or>
            (phase t' = Failed \<and> processedCount d' = processedCount d \<and>
             failedCount d' = failedCount d + 1 \<and> resolved d' = resolved d @ [(i, False)])"
    by (simp add: task_move_def)
  from inv have i1: "length (tasks d) = length (images d)"
    and i2: "processedCount d = length (filter (\<lambda>t. phase t = Done) (tasks d))"
    and i3: "failedCount d = length (filter (\<lambda>t. phase t = Failed) (tasks d))"
    and i4: "processedCount d = length (filter snd (resolved d))"
    and i5: "failedCount d = length (filter (\<lambda>r. \<not> snd r) (resolved d))"
    and i6: "distinct (map fst (resolved d))"
    and i7: "\<forall>r\<in>set (resolved d). fst r < length (tasks d) \<and> settled (tasks d ! fst r)"
    and i8: "\<not> awaiting d \<longrightarrow> list_all settled (tasks d)"
    and i9: "awaiting d \<longrightarrow> statusDiv d \<noteq> None \<and> (\<forall>t\<in>set (timers d). snd t \<noteq> RemoveStatusDisplay)"
    unfolding run_inv_def by blast+
  have w: "awaiting d"
  proof (rule ccontr)
    assume "\<not> awaiting d"
    with i8 have "list_all settled (tasks d)" by simp
    with i u show False by (simp add: list_all_length)
  qed
  have nd: "phase (tasks d ! i) \<noteq> Done" and nf: "phase (tasks d ! i) \<noteq> Failed"
    using u by (auto simp: settled_def)
  have cd: "length (filter (\<lambda>t. phase t = Done) (tasks d')) =
            length (filter (\<lambda>t. phase t = Done) (tasks d)) + (if phase t' = Done then 1 else 0)"
    using count_update [OF i, of "\<lambda>t. phase t = Done" t'] nd t by simp
  have cf: "length (filter (\<lambda>t. phase t = Failed) (tasks d')) =
            length (filter (\<lambda>t. phase t = Failed) (tasks d)) + (if phase t' = Failed then 1 else 0)"
    using count_update [OF i, of "\<lambda>t. phase t = Failed" t'] nf t by simp
  have fresh: "i \<notin> fst ` set (resolved d)"
  proof
    assume "i \<in> fst ` set (resolved d)"
    then obtain r where "r \<in> set (resolved d)" and "fst r = i" by auto
    with i7 have "settled (tasks d ! i)" by auto
    with u show False by simp
  qed
  have old: "fst r < length (tasks d') \<and> settled (tasks d' ! fst r)" if "r \<in> set (resolved d)" for r
  proof -
    from that i7 have a: "fst r < length (tasks d)" and b: "settled (tasks d ! fst r)"
      by auto
    from that fresh have "fst r \<noteq> i" by auto
    with a b t show ?thesis by simp
  qed
  have 1: "length (tasks d') = length (images d')" using i1 t im by simp
  have 9: "awaiting d' \<longrightarrow> statusDiv d' \<noteq> None \<and> (\<forall>t\<in>set (timers d'). snd t \<noteq> RemoveStatusDisplay)"
    using i9 aw ti st by simp
  have 8: "\<not> awaiting d' \<longrightarrow> list_all settled (tasks d')" using w aw by simp
  have ph: "phase t' \<noteq> Done \<and> phase t' \<noteq> Failed" if "\<not> settled t'"
    using that by (simp add: settled_def)
  have 2: "processedCount d' = length (filter (\<lambda>t. phase t = Done) (tasks d'))"
    using c ph i2 by (elim disjE conjE) (simp_all add: cd)
  have 3: "failedCount d' = length (filter (\<lambda>t. phase t = Failed) (tasks d'))"
    using c ph i3 by (elim disjE conjE) (simp_all add: cf)
  have 4: "processedCount d' = length (filter snd (resolved d'))"
    using c i4 by (elim disjE conjE) simp_all
  have 5: "failedCount d' = length (filter (\<lambda>r. \<not> snd r) (resolved d'))"
    using c i5 by (elim disjE conjE) simp_all
  have 6: "distinct (map fst (resolved d'))"
    using c i6 fresh by (elim disjE conjE) simp_all
  have new: "settled (tasks d' ! i)" if "settled t'"
    using that i t by simp
  have 7: "\<forall>r\<in>set (resolved d'). fst r < length (tasks d') \<and> settled (tasks d' ! fst r)"
  proof
    fix r assume r: "r \<in> set (resolved d')"
    show "fst r < length (tasks d') \<and> settled (tasks d' ! fst r)"
    proof (cases "r \<in> set (resolved d)")
      case True
      then show ?thesis by (rule old)
    next
      case False
      with r c have "fst r = i \<and> settled t'"
        by (elim disjE conjE) (simp_all add: settled_def)
      with new i t show ?thesis by simp
    qed
  qed
  show ?thesis
    unfolding run_inv_def by (intro conjI) (fact 1 2 3 4 5 6 7 8 9)+
qed

lemma step_inv:
  assumes s: "step b e d = Some d'" and inv: "run_inv d"
  shows "run_inv d'"
proof (cases "e = AllSettled")
  case True
  with s have a: "list_all settled (tasks d)" and e: "d' = processImages_resume d"
    using step_AllSettled by blast+
  from inv have "run_inv (processImages_resume d)"
    unfolding run_inv_def using a by auto
  with e show ?thesis by simp
next
  case False
  from step_task [OF s False] obtain i t' where m: "task_move d d' i t'" by blast
  then show ?thesis using inv by (rule task_move_inv)
qed

lemma exec_inv: "exec b es d = Some d' \<Longrightarrow> run_inv d \<Longrightarrow> run_inv d'"
proof (induction es arbitrary: d)
  case Nil
  then show ?case by simp
next
  case (Cons e es)
  then obtain d1 where s: "step b e d = Some d1" and r: "exec b es d1 = Some d'"
    by (auto split: option.splits)
  from step_inv [OF s Cons.prems(2)] Cons.IH [OF r] show ?case by blast
qed

lemma run_inv_run: "run b imgs es = Some d \<Longrightarrow> run_inv d"
  unfolding run_def using exec_inv run_inv_init by blast

lemma step_images:
  assumes s: "step b e d = Some d'"
  shows "images d' = images d"
proof (cases "e = AllSettled")
  case True
  with s have "step b AllSettled d = Some d'" by simp
  then have "d' = processImages_resume d" using step_AllSettled by blast
  then show ?thesis by simp
next
  case False
  from step_task [OF s False] obtain i t' where "task_move d d' i t'" by blast
  then show ?thesis by (simp add: task_move_def)
qed

lemma exec_images: "exec b es d = Some d' \<Longrightarrow> images d' = images d"
proof (induction es arbitrary: d)
  case Nil
  then show ?case by simp
next
  case (Cons e es)
  then obtain d1 where s: "step b e d = Some d1" and r: "exec b es d1 = Some d'"
    by (auto split: option.splits)
  from step_images [OF s] Cons.IH [OF r] show ?case by simp
qed

lemma step_not_awaiting:
  assumes s: "step b e d = Some d'" and n: "\<not> awaiting d"
  shows "\<not> awaiting d'"
proof (cases "e = AllSettled")
  case True
  with s have "step b AllSettled d = Some d'" by simp
  then have "awaiting d" using step_AllSettled by blast
  with n show ?thesis by simp
next
  case False
  from step_task [OF s False] obtain i t' where "task_move d d' i t'" by blast
  then have "awaiting d' = awaiting d" by (simp add: task_move_def)
  with n show ?thesis by simp
qed

lemma exec_not_awaiting: "exec b es d = Some d' \<Longrightarrow> \<not> awaiting d \<Longrightarrow> \<not> awaiting d'"
proof (induction es arbitrary: d)
  case Nil
  then show ?case by simp
next
  case (Cons e es)
  then obtain d1 where s: "step b e d = Some d1" and r: "exec b es d1 = Some d'"
    by (auto split: option.splits)
  from step_not_awaiting [OF s Cons.prems(2)] Cons.IH [OF r] show ?case by blast
qed

lemma exec_after_AllSettled:
  "exec b es d = Some d' \<Longrightarrow> AllSettled \<in> set es \<Longrightarrow> \<not> awaiting d'"
proof (induction es arbitrary: d)
  case Nil
  then show ?case by simp
next
  case (Cons e es)
  then obtain d1 where s: "step b e d = Some d1" and r: "exec b es d1 = Some d'"
    by (auto split: option.splits)
  show ?case
  proof (cases "e = AllSettled")
    case True
    with s have s': "step b AllSettled d = Some d1" by simp
    have "d1 = processImages_resume d" using step_AllSettled [OF s'] by blast
    then have na: "\<not> awaiting d1" by simp
    from exec_not_awaiting [OF r na] show ?thesis .
  next
    case False
    with Cons.prems(2) have "AllSettled \<in> set es" by simp
    then show ?thesis by (rule Cons.IH [OF r])
  qed
qed

lemma exec_append:
  "exec b (xs @ ys) d = (case exec b xs d of None \<Rightarrow> None | Some d' \<Rightarrow> exec b ys d')"
  by (induction xs arbitrary: d) (auto split: option.splits)

lemma terminal_no_step:
  assumes n: "\<not> awaiting d" and inv: "run_inv d"
  shows "step b e d = None"
proof (rule ccontr)
  assume "step b e d \<noteq> None"
  then obtain d' where s: "step b e d = Some d'" by auto
  show False
  proof (cases "e = AllSettled")
    case True
    with s have "step b AllSettled d = Some d'" by simp
    then have "awaiting d" using step_AllSettled by blast
    with n show False by simp
  next
    case False
    from step_task [OF s False] obtain i t' where "task_move d d' i t'" by blast
    then have i: "i < length (tasks d)" and u: "\<not> settled (tasks d ! i)"
      by (simp_all add: task_move_def)
    from inv n have "list_all settled (tasks d)" by (simp add: run_inv_def)
    with i u show False by (simp add: list_all_length)
  qed
qed

lemma AllSettled_last:
  "exec b es d0 = Some d \<Longrightarrow> run_inv d0 \<Longrightarrow> AllSettled \<in> set es \<Longrightarrow>
   \<exists>es' d1. es = es' @ [AllSettled] \<and> AllSettled \<notin> set es' \<and> exec b es' d0 = Some d1 \<and>
     awaiting d1 \<and> run_inv d1 \<and> d = processImages_resume d1"
proof (induction es arbitrary: d0)
  case Nil
  then show ?case by simp
next
  case (Cons e es)
  from Cons.prems(1) obtain d1 where s: "step b e d0 = Some d1" and r: "exec b es d1 = Some d"
    by (auto split: option.splits)
  have inv1: "run_inv d1" using s Cons.prems(2) by (rule step_inv)
  show ?case
  proof (cases "e = AllSettled")
    case True
    with s have s': "step b AllSettled d0 = Some d1" by simp
    then have a: "awaiting d0" and e: "d1 = processImages_resume d0"
      using step_AllSettled by blast+
    from e have na: "\<not> awaiting d1" by simp
    have "es = []"
    proof (cases es)
      case Nil
      then show ?thesis .
    next
      case (Cons e' es'')
      with r terminal_no_step [OF na inv1, of b e'] show ?thesis by simp
    qed
    with r have "d = d1" by simp
    with True \<open>es = []\<close> a e Cons.prems(2) have
      "e # es = [] @ [AllSettled] \<and> AllSettled \<notin> set [] \<and> exec b [] d0 = Some d0 \<and>
       awaiting d0 \<and> run_inv d0 \<and> d = processImages_resume d0" by simp
    then show ?thesis by blast
  next
    case False
    with Cons.prems(3) have "AllSettled \<in> set es" by simp
    from Cons.IH [OF r inv1 this] obtain es' d2 where
      h: "es = es' @ [AllSettled]" "AllSettled \<notin> set es'" "exec b es' d1 = Some d2"
         "awaiting d2" "run_inv d2" "d = processImages_resume d2" by blast
    from h(1) have 1: "e # es = (e # es') @ [AllSettled]" by simp
    from h(2) False have 2: "AllSettled \<notin> set (e # es')" by simp
    from h(3) s have 3: "exec b (e # es') d0 = Some d2" by simp
    from 1 2 3 h(4,5,6) show ?thesis by blast
  qed
qed

lemma processImages_resume_render:
  assumes st: "statusDiv d = Some st"
  shows "timers (processImages_resume d) =
           timers d @ [(if failedCount d = 0 then 5000 else 3000, RemoveStatusDisplay)]"
    and "statusDiv (processImages_resume d) =
           Some (st\<lparr>background := (if failedCount d = 0 then ''#4CAF50'' else ''#f44336''),
                    content := (if failedCount d = 0
                      then ''Download complete! <br> '' @ toString_nat (processedCount d) @
                           '' images downloaded''
                      else ''Download failed! <br> '' @ toString_nat (failedCount d) @ ''/'' @
                           toString_nat (length (images d)) @ '' images failed to download'')\<rparr>)"
  using st by (simp_all add: processImages_resume_def showSuccess_def showError_def Let_def)

text \<open>
  C4, as amended. In a run that reaches the continuation of \<^verbatim>\<open>processImages\<close>, the
  continuation runs exactly once and is the last event. It renders once: with no failure the
  green success message and a removal after 5000 ms; with a failure the red failure message,
  however many images succeeded, and a removal after 3000 ms, the default duration of
  \<^verbatim>\<open>showError\<close>, which the call does not override.
\<close>

theorem completion_render:
  assumes r: "run b imgs es = Some d" and a: "AllSettled \<in> set es"
  shows "count_list es AllSettled = 1 \<and>
         filter (\<lambda>t. snd t = RemoveStatusDisplay) (timers d) =
           [(if failedCount d = 0 then 5000 else 3000, RemoveStatusDisplay)] \<and>
         map_option background (statusDiv d) =
           Some (if failedCount d = 0 then ''#4CAF50'' else ''#f44336'') \<and>
         map_option content (statusDiv d) =
           Some (if failedCount d = 0
                 then ''Download complete! <br> '' @ toString_nat (processedCount d) @
                      '' images downloaded''
                 else ''Download failed! <br> '' @ toString_nat (failedCount d) @ ''/'' @
                      toString_nat (length imgs) @ '' images failed to download'')"
proof -
  have e: "exec b es (ImageDownloader imgs) = Some d" using r by (simp add: run_def)
  from AllSettled_last [OF e run_inv_init a] obtain es' d1 where
    h: "es = es' @ [AllSettled]" "AllSettled \<notin> set es'" "exec b es' (ImageDownloader imgs) = Some d1"
       "awaiting d1" "run_inv d1" "d = processImages_resume d1" by blast
  from h(4,5) have sd: "statusDiv d1 \<noteq> None"
    and nt: "\<forall>t\<in>set (timers d1). snd t \<noteq> RemoveStatusDisplay"
    by (simp_all add: run_inv_def)
  from sd obtain st where st: "statusDiv d1 = Some st" by auto
  have "images (ImageDownloader imgs) = imgs" by (rule ImageDownloader_fields)
  with exec_images [OF h(3)] have im: "images d1 = imgs" by simp
  have f: "failedCount d = failedCount d1" and p: "processedCount d = processedCount d1"
    using h(6) by simp_all
  have 1: "count_list es AllSettled = 1"
    using h(1,2) by (simp add: count_list_0_iff)
  have "filter (\<lambda>t. snd t = RemoveStatusDisplay) (timers d1) = []"
    using nt by (simp add: filter_empty_conv)
  then have 2: "filter (\<lambda>t. snd t = RemoveStatusDisplay) (timers d) =
           [(if failedCount d = 0 then 5000 else 3000, RemoveStatusDisplay)]"
    using processImages_resume_render(1) [OF st] h(6) f by simp
  have 3: "map_option background (statusDiv d) =
           Some (if failedCount d = 0 then ''#4CAF50'' else ''#f44336'')"
    using processImages_resume_render(2) [OF st] h(6) f by simp
  have 4: "map_option content (statusDiv d) =
           Some (if failedCount d = 0
                 then ''Download complete! <br> '' @ toString_nat (processedCount d) @
                      '' images downloaded''
                 else ''Download failed! <br> '' @ toString_nat (failedCount d) @ ''/'' @
                      toString_nat (length imgs) @ '' images failed to download'')"
    using processImages_resume_render(2) [OF st] h(6) f p im by simp
  show ?thesis by (intro conjI) (fact 1 2 3 4)+
qed

theorem completion_render_witness:
  "run android_phone [''https://cdn.example.com/room.png''] [Timeout 0, OnLoad 0 True, ToBlob 0 True, ShareSettled 0 True, AllSettled] \<noteq> None \<and>
   map_option timers
     (run android_phone [''https://cdn.example.com/room.png''] [Timeout 0, OnLoad 0 True, ToBlob 0 True, ShareSettled 0 True, AllSettled]) =
     Some [(0, ProcessImage 0), (5000, RemoveStatusDisplay)] \<and>
   map_option (map_option background \<circ> statusDiv)
     (run android_phone [''https://cdn.example.com/room.png''] [Timeout 0, OnLoad 0 True, ToBlob 0 True, ShareSettled 0 True, AllSettled]) =
     Some (Some ''#4CAF50'')"
proof -
  let ?es = "[Timeout 0, OnLoad 0 True, ToBlob 0 True, ShareSettled 0 True, AllSettled]"
  let ?r = "run android_phone [''https://cdn.example.com/room.png''] ?es"
  have n: "?r \<noteq> None" by code_simp
  then obtain d where d: "?r = Some d" by auto
  have a: "AllSettled \<in> set ?es" by simp
  have f: "map_option failedCount ?r = Some 0" by code_simp
  then have f0: "failedCount d = 0" using d by simp
  have t: "map_option timers ?r = Some [(0, ProcessImage 0), (5000, RemoveStatusDisplay)]"
    by code_simp
  from completion_render [OF d a] f0
  have "map_option background (statusDiv d) = Some ''#4CAF50''" by simp
  then have "map_option (map_option background \<circ> statusDiv) ?r = Some (Some ''#4CAF50'')"
    using d by simp
  with n t show ?thesis by blast
qed

text \<open>
  C4 as it is written fails for the failure message: after one image whose load fails, the
  removal is scheduled after 3000 ms, not 5000.
\<close>

theorem completion_failure_counterexample:
  "map_option failedCount
     (run android_phone [''https://cdn.example.com/room.png''] [Timeout 0, OnError 0, AllSettled]) = Some 1 \<and>
   map_option timers
     (run android_phone [''https://cdn.example.com/room.png''] [Timeout 0, OnError 0, AllSettled]) =
     Some [(0, ProcessImage 0), (3000, RemoveStatusDisplay)]"
  by code_simp

lemma run_facts:
  assumes r: "run b imgs es = Some d"
  shows "length (resolved d) \<le> length imgs \<and>
         distinct (map fst (resolved d)) \<and>
         processedCount d = length (filter snd (resolved d)) \<and>
         failedCount d = length (filter (\<lambda>r. \<not> snd r) (resolved d)) \<and>
         processedCount d + failedCount d \<le> length imgs \<and>
         (processedCount d + failedCount d = length imgs \<longleftrightarrow> list_all settled (tasks d)) \<and>
         (step b AllSettled d \<noteq> None \<longleftrightarrow>
            awaiting d \<and> processedCount d + failedCount d = length imgs) \<and>
         (AllSettled \<in> set es \<longrightarrow> length (resolved d) = length imgs)"
proof -
  have inv: "run_inv d" using r by (rule run_inv_run)
  from inv have i1: "length (tasks d) = length (images d)"
    and i2: "processedCount d = length (filter (\<lambda>t. phase t = Done) (tasks d))"
    and i3: "failedCount d = length (filter (\<lambda>t. phase t = Failed) (tasks d))"
    and i4: "processedCount d = length (filter snd (resolved d))"
    and i5: "failedCount d = length (filter (\<lambda>r. \<not> snd r) (resolved d))"
    and i6: "distinct (map fst (resolved d))"
    and i8: "\<not> awaiting d \<longrightarrow> list_all settled (tasks d)"
    unfolding run_inv_def by blast+
  have "images (ImageDownloader imgs) = imgs" by (rule ImageDownloader_fields)
  then have im: "images d = imgs"
    using r exec_images [of b es "ImageDownloader imgs" d] by (simp add: run_def)
  have len: "length (tasks d) = length imgs" using i1 im by simp
  have "processedCount d + failedCount d =
        length (filter (\<lambda>t. phase t = Done) (tasks d)) + length (filter (\<lambda>t. phase t = Failed) (tasks d))"
    using i2 i3 by linarith
  then have pf: "processedCount d + failedCount d = length (filter settled (tasks d))"
    using count_settled [of "tasks d"] by linarith
  have "length (resolved d) = length (filter snd (resolved d)) + length (filter (\<lambda>r. \<not> snd r) (resolved d))"
    using sum_length_filter_compl [of snd "resolved d"] by simp
  then have lr: "length (resolved d) = processedCount d + failedCount d"
    using i4 i5 by linarith
  have "length (filter settled (tasks d)) \<le> length (tasks d)" by (rule length_filter_le)
  then have le: "processedCount d + failedCount d \<le> length imgs"
    using pf len by linarith
  have "length (filter settled (tasks d)) = length (tasks d) \<longleftrightarrow> list_all settled (tasks d)"
    using filter_all_iff [of settled "tasks d"] by (simp add: list_all_iff)
  then have eq: "processedCount d + failedCount d = length imgs \<longleftrightarrow> list_all settled (tasks d)"
    using pf len by simp
  have "step b AllSettled d \<noteq> None \<longleftrightarrow> awaiting d \<and> list_all settled (tasks d)"
    by simp
  then have en: "step b AllSettled d \<noteq> None \<longleftrightarrow>
            awaiting d \<and> processedCount d + failedCount d = length imgs"
    using eq by blast
  have fin: "AllSettled \<in> set es \<longrightarrow> length (resolved d) = length imgs"
  proof
    assume a: "AllSettled \<in> set es"
    have "exec b es (ImageDownloader imgs) = Some d" using r by (simp add: run_def)
    then have "\<not> awaiting d" using a by (rule exec_after_AllSettled)
    with i8 have "list_all settled (tasks d)" by simp
    with eq have "processedCount d + failedCount d = length imgs" by blast
    with lr show "length (resolved d) = length imgs" by linarith
  qed
  have l: "length (resolved d) \<le> length imgs" using lr le by linarith
  show ?thesis
    by (intro conjI) (fact l i6 i4 i5 le eq en fin)+
qed

lemma fail_each_in_turn:
  "k \<le> length imgs \<Longrightarrow>
   \<exists>d. exec b (concat (map (\<lambda>i. [Timeout i, OnError i]) [0..<k])) (ImageDownloader imgs) = Some d \<and>
       length (tasks d) = length imgs \<and>
       awaiting d = awaiting (ImageDownloader imgs) \<and>
       (\<forall>j<length imgs. if j < k then settled (tasks d ! j) else phase (tasks d ! j) = Pending)"
proof (induction k)
  case 0
  have "tasks (ImageDownloader imgs) =
     replicate (length imgs) \<lparr>phase = Pending, filename = [], fileName = []\<rparr>"
    by (rule ImageDownloader_fields)
  then show ?case by simp
next
  case (Suc k)
  then have k: "k < length imgs" by simp
  with Suc.IH obtain d where
    e: "exec b (concat (map (\<lambda>i. [Timeout i, OnError i]) [0..<k])) (ImageDownloader imgs) = Some d"
    and l: "length (tasks d) = length imgs"
    and a: "awaiting d = awaiting (ImageDownloader imgs)"
    and p: "\<forall>j<length imgs. if j < k then settled (tasks d ! j) else phase (tasks d ! j) = Pending"
    by auto
  from p k have "phase (tasks d ! k) = Pending" by auto
  with k l have s1: "step b (Timeout k) d = Some (processImage b k d)"
    by (simp add: in_phase_def)
  have "in_phase (processImage b k d) k Loading"
    using k l by (simp add: in_phase_def)
  then have s2: "step b (OnError k) (processImage b k d) = Some (task_failed k (processImage b k d))"
    by simp
  let ?d = "task_failed k (processImage b k d)"
  have "concat (map (\<lambda>i. [Timeout i, OnError i]) [0..<Suc k]) =
        concat (map (\<lambda>i. [Timeout i, OnError i]) [0..<k]) @ [Timeout k, OnError k]"
    by simp
  then have 1: "exec b (concat (map (\<lambda>i. [Timeout i, OnError i]) [0..<Suc k])) (ImageDownloader imgs) = Some ?d"
    using e s1 s2 by (simp add: exec_append)
  have 2: "length (tasks ?d) = length imgs" using l by simp
  have 3: "awaiting ?d = awaiting (ImageDownloader imgs)" using a by simp
  have 4: "\<forall>j<length imgs. if j < Suc k then settled (tasks ?d ! j) else phase (tasks ?d ! j) = Pending"
  proof (intro allI impI)
    fix j assume j: "j < length imgs"
    show "if j < Suc k then settled (tasks ?d ! j) else phase (tasks ?d ! j) = Pending"
    proof (cases "j = k")
      case True
      with k l show ?thesis by (simp add: settled_def)
    next
      case False
      with p j show ?thesis by (auto simp: nth_list_update)
    qed
  qed
  from 1 2 3 4 show ?case by blast
qed

lemma complete_run_exists:
  "\<exists>es d. run b imgs es = Some d \<and> list_all settled (tasks d) \<and>
          length (tasks d) = length imgs \<and> (imgs \<noteq> [] \<longrightarrow> AllSettled \<in> set es)"
proof -
  let ?es = "concat (map (\<lambda>i. [Timeout i, OnError i]) [0..<length imgs])"
  from fail_each_in_turn [of "length imgs" imgs b] obtain d where
    e: "exec b ?es (ImageDownloader imgs) = Some d"
    and l: "length (tasks d) = length imgs"
    and a: "awaiting d = awaiting (ImageDownloader imgs)"
    and p: "\<forall>j<length imgs. if j < length imgs then settled (tasks d ! j) else phase (tasks d ! j) = Pending"
    by auto
  have s: "list_all settled (tasks d)" using p l by (simp add: list_all_length)
  show ?thesis
  proof (cases "imgs = []")
    case True
    with e s l have "run b imgs ?es = Some d \<and> list_all settled (tasks d) \<and>
          length (tasks d) = length imgs \<and> (imgs \<noteq> [] \<longrightarrow> AllSettled \<in> set ?es)"
      by (simp add: run_def)
    then show ?thesis by blast
  next
    case False
    have "awaiting (ImageDownloader imgs) \<longleftrightarrow> imgs \<noteq> []" by (rule ImageDownloader_fields)
    with False a have "awaiting d" by simp
    with s have "step b AllSettled d = Some (processImages_resume d)" by simp
    with e have "exec b (?es @ [AllSettled]) (ImageDownloader imgs) = Some (processImages_resume d)"
      by (simp add: exec_append)
    with s l have "run b imgs (?es @ [AllSettled]) = Some (processImages_resume d) \<and>
          list_all settled (tasks (processImages_resume d)) \<and>
          length (tasks (processImages_resume d)) = length imgs \<and>
          (imgs \<noteq> [] \<longrightarrow> AllSettled \<in> set (?es @ [AllSettled]))"
      by (simp add: run_def)
    then show ?thesis by blast
  qed
qed

text \<open>
  C1. After any sequence of events on a page of \<open>N\<close> images: at most \<open>N\<close> promises are
  resolved and none twice; \<^verbatim>\<open>processedCount\<close> and \<^verbatim>\<open>failedCount\<close> are the numbers of
  \<^verbatim>\<open>resolve\<close> calls with \<^verbatim>\<open>success\<close> true and false, which only the completion handlers
  make; their sum is at most \<open>N\<close> and is \<open>N\<close> exactly when every task is settled, which is
  when \<^verbatim>\<open>Promise.all\<close> is fulfilled; the continuation can run exactly when
  \<^verbatim>\<open>processImages\<close> waits and the sum is \<open>N\<close>; and once it has run, exactly \<open>N\<close> promises were
  resolved. For every \<open>N\<close> there is a sequence of events after which \<open>N\<close> promises are resolved
  and the sum is \<open>N\<close>: the browser has only to call every image back.
\<close>

theorem run_counters:
  "(run b imgs es = Some d \<longrightarrow>
      length (resolved d) \<le> length imgs \<and>
      distinct (map fst (resolved d)) \<and>
      processedCount d = length (filter snd (resolved d)) \<and>
      failedCount d = length (filter (\<lambda>r. \<not> snd r) (resolved d)) \<and>
      processedCount d + failedCount d \<le> length imgs \<and>
      (processedCount d + failedCount d = length imgs \<longleftrightarrow> list_all settled (tasks d)) \<and>
      (step b AllSettled d \<noteq> None \<longleftrightarrow>
         awaiting d \<and> processedCount d + failedCount d = length imgs) \<and>
      (AllSettled \<in> set es \<longrightarrow> length (resolved d) = length imgs)) \<and>
   (\<exists>es' d'. run b imgs es' = Some d' \<and> length (resolved d') = length imgs \<and>
      processedCount d' + failedCount d' = length imgs \<and>
      (imgs \<noteq> [] \<longrightarrow> AllSettled \<in> set es'))"
proof (rule conjI; (rule impI)?)
  assume r: "run b imgs es = Some d"
  from run_facts [OF r]
  show "length (resolved d) \<le> length imgs \<and>
      distinct (map fst (resolved d)) \<and>
      processedCount d = length (filter snd (resolved d)) \<and>
      failedCount d = length (filter (\<lambda>r. \<not> snd r) (resolved d)) \<and>
      processedCount d + failedCount d \<le> length imgs \<and>
      (processedCount d + failedCount d = length imgs \<longleftrightarrow> list_all settled (tasks d)) \<and>
      (step b AllSettled d \<noteq> None \<longleftrightarrow>
         awaiting d \<and> processedCount d + failedCount d = length imgs) \<and>
      (AllSettled \<in> set es \<longrightarrow> length (resolved d) = length imgs)" .
next
  from complete_run_exists [of b imgs] obtain es' d' where
    r: "run b imgs es' = Some d'" and s: "list_all settled (tasks d')"
    and a: "imgs \<noteq> [] \<longrightarrow> AllSettled \<in> set es'" by blast
  note f = run_facts [OF r]
  from f s have pf: "processedCount d' + failedCount d' = length imgs" by blast
  have "length (resolved d') =
        length (filter snd (resolved d')) + length (filter (\<lambda>r. \<not> snd r) (resolved d'))"
    using sum_length_filter_compl [of snd "resolved d'"] by simp
  moreover from f have "processedCount d' = length (filter snd (resolved d'))"
    and "failedCount d' = length (filter (\<lambda>r. \<not> snd r) (resolved d'))" by blast+
  ultimately have "length (resolved d') = length imgs" using pf by linarith
  with r pf a show "\<exists>es' d'. run b imgs es' = Some d' \<and> length (resolved d') = length imgs \<and>
      processedCount d' + failedCount d' = length imgs \<and>
      (imgs \<noteq> [] \<longrightarrow> AllSettled \<in> set es')" by blast
qed

theorem run_counters_witness:
  "run android_phone [''https://cdn.example.com/room.png'', ''https://cdn.example.com/view'']
     [Timeout 0, Timeout 1, OnError 1, OnLoad 0 True, ToBlob 0 True, ShareSettled 0 False, AllSettled]
     \<noteq> None \<and>
   map_option processedCount
     (run android_phone [''https://cdn.example.com/room.png'', ''https://cdn.example.com/view'']
       [Timeout 0, Timeout 1, OnError 1, OnLoad 0 True, ToBlob 0 True, ShareSettled 0 False, AllSettled])
     = Some 1 \<and>
   map_option failedCount
     (run android_phone [''https://cdn.example.com/room.png'', ''https://cdn.example.com/view'']
       [Timeout 0, Timeout 1, OnError 1, OnLoad 0 True, ToBlob 0 True, ShareSettled 0 False, AllSettled])
     = Some 1 \<and>
   map_option (length \<circ> resolved)
     (run android_phone [''https://cdn.example.com/room.png'', ''https://cdn.example.com/view'']
       [Timeout 0, Timeout 1, OnError 1, OnLoad 0 True, ToBlob 0 True, ShareSettled 0 False, AllSettled])
     = Some 2"
proof -
  let ?r = "run android_phone [''https://cdn.example.com/room.png'', ''https://cdn.example.com/view'']
     [Timeout 0, Timeout 1, OnError 1, OnLoad 0 True, ToBlob 0 True, ShareSettled 0 False, AllSettled]"
  have n: "?r \<noteq> None" by code_simp
  then obtain d where d: "?r = Some d" by auto
  have p: "map_option processedCount ?r = Some 1" by code_simp
  have f: "map_option failedCount ?r = Some 1" by code_simp
  have a: "AllSettled \<in> set [Timeout 0, Timeout 1, OnError 1, OnLoad 0 True, ToBlob 0 True,
             ShareSettled 0 False, AllSettled]" by simp
  from run_counters [of android_phone
      "[''https://cdn.example.com/room.png'', ''https://cdn.example.com/view'']"
      "[Timeout 0, Timeout 1, OnError 1, OnLoad 0 True, ToBlob 0 True, ShareSettled 0 False, AllSettled]"
      d] d a
  have "length (resolved d) = length [''https://cdn.example.com/room.png'', ''https://cdn.example.com/view'']"
    by blast
  then have "map_option (length \<circ> resolved) ?r = Some 2" using d by simp
  with n p f show ?thesis by blast
qed

lemma fn_processImages_resume_render:
  assumes "statusDiv d = Some st"
  shows "map_option background (statusDiv (fn_processImages_resume d)) =
           Some (if 0 < processedCount d then ''#4CAF50'' else ''#f44336'')"
    and "timers (fn_processImages_resume d) = timers d @ [(5000, RemoveStatusDisplay)]"
  using assms by (simp_all add: fn_processImages_resume_def Let_def)

lemma fn_downloadAllImages_timers:
  "filter (\<lambda>t. snd t \<noteq> RemoveStatusDisplay) (timers (fn_downloadAllImages imgs)) =
     map (\<lambda>j. (j * 100, ProcessImage j)) [0..<length imgs]"
proof (cases "imgs = []")
  case True
  then show ?thesis
    by (simp add: fn_downloadAllImages_def createStatusDisplay_def constructor_fields_def)
next
  case False
  define d0 where "d0 = fn_updateStatus (createStatusDisplay (constructor_fields imgs))"
  have i: "images d0 = imgs" and t: "timers d0 = []"
    by (simp_all add: d0_def fn_updateStatus_def createStatusDisplay_def constructor_fields_def)
  have "timers (processImages_loop 100 0 d0) = map (\<lambda>j. (j * 100, ProcessImage j)) [0..<length imgs]"
    using processImages_loop_fields [of 0 d0 100] i t by simp
  moreover have "fn_downloadAllImages imgs = (processImages_loop 100 0 d0)\<lparr>awaiting := True\<rparr>"
    using False by (simp add: fn_downloadAllImages_def d0_def Let_def)
  ultimately have "timers (fn_downloadAllImages imgs) = map (\<lambda>j. (j * 100, ProcessImage j)) [0..<length imgs]"
    by simp
  then show ?thesis by (simp add: filter_map comp_def)
qed

text \<open>
  C8. The constructor schedules the start of image \<open>i\<close> after \<open>i * 200\<close> ms, and the function
  version after \<open>i * 100\<close> ms, in index order and nothing else besides: the delays are
  non-decreasing and two consecutive ones differ by the interval.
\<close>

theorem stagger_schedule:
  "timers (ImageDownloader imgs) = map (\<lambda>i. (i * 200, ProcessImage i)) [0..<length imgs] \<and>
   filter (\<lambda>t. snd t \<noteq> RemoveStatusDisplay) (timers (fn_downloadAllImages imgs)) =
     map (\<lambda>i. (i * 100, ProcessImage i)) [0..<length imgs] \<and>
   sorted (map fst (timers (ImageDownloader imgs))) \<and>
   (i + 1 < length imgs \<longrightarrow>
      fst (timers (ImageDownloader imgs) ! (i + 1)) = fst (timers (ImageDownloader imgs) ! i) + 200 \<and>
      snd (timers (ImageDownloader imgs) ! i) = ProcessImage i)"
proof (intro conjI impI)
  show t: "timers (ImageDownloader imgs) = map (\<lambda>i. (i * 200, ProcessImage i)) [0..<length imgs]"
    by (rule ImageDownloader_fields)
  show "filter (\<lambda>t. snd t \<noteq> RemoveStatusDisplay) (timers (fn_downloadAllImages imgs)) =
     map (\<lambda>i. (i * 100, ProcessImage i)) [0..<length imgs]"
    by (rule fn_downloadAllImages_timers)
  show "sorted (map fst (timers (ImageDownloader imgs)))"
    unfolding t by (simp add: sorted_iff_nth_mono comp_def)
  show "fst (timers (ImageDownloader imgs) ! (i + 1)) = fst (timers (ImageDownloader imgs) ! i) + 200"
    if "i + 1 < length imgs"
    unfolding t using that by simp
  show "snd (timers (ImageDownloader imgs) ! i) = ProcessImage i" if "i + 1 < length imgs"
    unfolding t using that by simp
qed

theorem stagger_schedule_witness:
  "(1::nat) + 1 < length [''a.png'', ''b.png'', ''c.png''] \<and>
   timers (ImageDownloader [''a.png'', ''b.png'', ''c.png'']) =
     [(0, ProcessImage 0), (200, ProcessImage 1), (400, ProcessImage 2)] \<and>
   fst (timers (ImageDownloader [''a.png'', ''b.png'', ''c.png'']) ! (1 + 1)) =
     fst (timers (ImageDownloader [''a.png'', ''b.png'', ''c.png'']) ! 1) + 200"
proof -
  have h: "(1::nat) + 1 < length [''a.png'', ''b.png'', ''c.png'']" by simp
  have "[0..<length [''a.png'', ''b.png'', ''c.png'']] = [0, 1, 2]" by (simp add: upt_rec)
  then have v: "timers (ImageDownloader [''a.png'', ''b.png'', ''c.png'']) =
     [(0, ProcessImage 0), (200, ProcessImage 1), (400, ProcessImage 2)]"
    using stagger_schedule [of "[''a.png'', ''b.png'', ''c.png'']" 1] by simp
  show ?thesis
    using h v stagger_schedule [of "[''a.png'', ''b.png'', ''c.png'']" 1] by blast
qed

text \<open>
  C3. With no image on the page the class shows nothing: \<^verbatim>\<open>init\<close> calls \<^verbatim>\<open>showError\<close> before
  \<^verbatim>\<open>createStatusDisplay\<close>, so \<^verbatim>\<open>this.statusDiv\<close> is still null, the message is dropped and no
  removal is scheduled. No transfer is attempted: no event can happen. The function version
  creates the element first and does show the red message and schedule its removal after
  3000 ms.
\<close>

theorem init_no_images:
  "statusDiv (ImageDownloader []) = None \<and> timers (ImageDownloader []) = [] \<and>
   tasks (ImageDownloader []) = [] \<and> step b e (ImageDownloader []) = None \<and>
   statusDiv (fn_downloadAllImages []) =
     Some \<lparr>background = ''#f44336'', content = ''No images found on this page'', attached = True\<rparr> \<and>
   timers (fn_downloadAllImages []) = [(3000, RemoveStatusDisplay)]"
proof (intro conjI)
  show "statusDiv (ImageDownloader []) = None" "timers (ImageDownloader []) = []"
    "tasks (ImageDownloader []) = []"
    by (simp_all add: ImageDownloader_empty constructor_fields_def)
  show "step b e (ImageDownloader []) = None"
    by (cases e) (simp_all add: ImageDownloader_empty constructor_fields_def in_phase_def)
  show "statusDiv (fn_downloadAllImages []) =
     Some \<lparr>background = ''#f44336'', content = ''No images found on this page'', attached = True\<rparr>"
    "timers (fn_downloadAllImages []) = [(3000, RemoveStatusDisplay)]"
    by (simp_all add: fn_downloadAllImages_def createStatusDisplay_def constructor_fields_def)
qed

text \<open>
  C7. On Android, with a share surface that takes files, a blob is handed to
  \<^verbatim>\<open>navigator.share\<close> under the task's filename and nothing is counted yet. When the share
  settles, a rejected share is followed by \<^verbatim>\<open>downloadFile\<close> with the same filename, and in
  both cases \<^verbatim>\<open>processedCount\<close> goes up by one, \<^verbatim>\<open>failedCount\<close> is unchanged and the task is
  done. Without such a share surface the blob goes straight to \<^verbatim>\<open>downloadFile\<close>, with the
  same counting.
\<close>

theorem android_share_fallback:
  "(getPlatform (navigator_userAgent b) = Android \<and> canShareFiles b \<and> in_phase d i Encoding \<longrightarrow>
      step b (ToBlob i True) d = Some (downloadWithShareAPI i d) \<and>
      in_phase (downloadWithShareAPI i d) i Sharing \<and>
      filename (tasks (downloadWithShareAPI i d) ! i) = filename (tasks d ! i) \<and>
      shares (downloadWithShareAPI i d) =
        shares d @ [(filename (tasks d ! i), ''Image from '' @ fileName (tasks d ! i))] \<and>
      downloads (downloadWithShareAPI i d) = downloads d \<and>
      processedCount (downloadWithShareAPI i d) = processedCount d \<and>
      failedCount (downloadWithShareAPI i d) = failedCount d) \<and>
   (in_phase d i Sharing \<longrightarrow>
      step b (ShareSettled i shared) d = Some (share_settled i shared d) \<and>
      downloads (share_settled i shared d) =
        (if shared then downloads d else downloads d @ [filename (tasks d ! i)]) \<and>
      processedCount (share_settled i shared d) = processedCount d + 1 \<and>
      failedCount (share_settled i shared d) = failedCount d \<and>
      resolved (share_settled i shared d) = resolved d @ [(i, True)] \<and>
      in_phase (share_settled i shared d) i Done) \<and>
   (getPlatform (navigator_userAgent b) = Android \<and> \<not> canShareFiles b \<and> in_phase d i Encoding \<longrightarrow>
      step b (ToBlob i True) d = Some (task_done i (downloadFile (filename (tasks d ! i)) d)) \<and>
      downloads (task_done i (downloadFile (filename (tasks d ! i)) d)) =
        downloads d @ [filename (tasks d ! i)] \<and>
      shares (task_done i (downloadFile (filename (tasks d ! i)) d)) = shares d \<and>
      processedCount (task_done i (downloadFile (filename (tasks d ! i)) d)) = processedCount d + 1 \<and>
      failedCount (task_done i (downloadFile (filename (tasks d ! i)) d)) = failedCount d \<and>
      in_phase (task_done i (downloadFile (filename (tasks d ! i)) d)) i Done)"
proof (intro conjI impI)
  assume h: "getPlatform (navigator_userAgent b) = Android \<and> canShareFiles b \<and> in_phase d i Encoding"
  then have i: "i < length (tasks d)" by (simp add: in_phase_def)
  have ph: "in_phase (downloadWithShareAPI i d) i Sharing"
    using i by (simp add: in_phase_def)
  show "in_phase (downloadWithShareAPI i d) i Sharing" by (rule ph)
  show "step b (ToBlob i True) d = Some (downloadWithShareAPI i d)"
    using h ph by (simp add: toBlob_callback_def handleImageDownload_def in_phase_def)
  show "filename (tasks (downloadWithShareAPI i d) ! i) = filename (tasks d ! i)"
    using i by simp
  show "shares (downloadWithShareAPI i d) =
        shares d @ [(filename (tasks d ! i), ''Image from '' @ fileName (tasks d ! i))]"
    by simp
  show "downloads (downloadWithShareAPI i d) = downloads d" by simp
  show "processedCount (downloadWithShareAPI i d) = processedCount d" by simp
  show "failedCount (downloadWithShareAPI i d) = failedCount d" by simp
next
  assume h: "in_phase d i Sharing"
  then have i: "i < length (tasks d)" by (simp add: in_phase_def)
  show "step b (ShareSettled i shared) d = Some (share_settled i shared d)"
    using h by simp
  show "downloads (share_settled i shared d) =
        (if shared then downloads d else downloads d @ [filename (tasks d ! i)])"
    by (simp add: share_settled_def handleImageDownload_resume_def)
  show "processedCount (share_settled i shared d) = processedCount d + 1"
    by (simp add: share_settled_def handleImageDownload_resume_def)
  show "failedCount (share_settled i shared d) = failedCount d"
    by (simp add: share_settled_def handleImageDownload_resume_def)
  show "resolved (share_settled i shared d) = resolved d @ [(i, True)]"
    by (simp add: share_settled_def handleImageDownload_resume_def)
  show "in_phase (share_settled i shared d) i Done"
    using i by (simp add: share_settled_def handleImageDownload_resume_def in_phase_def)
next
  assume h: "getPlatform (navigator_userAgent b) = Android \<and> \<not> canShareFiles b \<and> in_phase d i Encoding"
  then have i: "i < length (tasks d)" and e: "phase (tasks d ! i) = Encoding"
    by (simp_all add: in_phase_def)
  let ?d = "task_done i (downloadFile (filename (tasks d ! i)) d)"
  show "step b (ToBlob i True) d = Some ?d"
    using h e by (simp add: toBlob_callback_def handleImageDownload_def)
  show "downloads ?d = downloads d @ [filename (tasks d ! i)]" by simp
  show "shares ?d = shares d" by simp
  show "processedCount ?d = processedCount d + 1" by simp
  show "failedCount ?d = failedCount d" by simp
  show "in_phase ?d i Done" using i by (simp add: in_phase_def)
qed

theorem android_share_fallback_witness:
  "getPlatform (navigator_userAgent android_phone) = Android \<and> canShareFiles android_phone \<and>
   in_phase (onload 0 True (processImage android_phone 0 (ImageDownloader [''https://cdn.example.com/room.png''])))
     0 Encoding \<and>
   in_phase (downloadWithShareAPI 0
       (onload 0 True (processImage android_phone 0 (ImageDownloader [''https://cdn.example.com/room.png'']))))
     0 Sharing \<and>
   downloads (share_settled 0 False (downloadWithShareAPI 0
       (onload 0 True (processImage android_phone 0 (ImageDownloader [''https://cdn.example.com/room.png''])))))
     = [''condo_theline_12_1.png''] \<and>
   failedCount (share_settled 0 False (downloadWithShareAPI 0
       (onload 0 True (processImage android_phone 0 (ImageDownloader [''https://cdn.example.com/room.png''])))))
     = 0 \<and>
   processedCount (share_settled 0 False (downloadWithShareAPI 0
       (onload 0 True (processImage android_phone 0 (ImageDownloader [''https://cdn.example.com/room.png''])))))
     = 1 \<and>
   getPlatform (navigator_userAgent (android_phone\<lparr>navigator_shares_files := False\<rparr>)) = Android \<and>
   \<not> canShareFiles (android_phone\<lparr>navigator_shares_files := False\<rparr>) \<and>
   step (android_phone\<lparr>navigator_shares_files := False\<rparr>) (ToBlob 0 True)
     (onload 0 True (processImage android_phone 0 (ImageDownloader [''https://cdn.example.com/room.png''])))
   = Some (task_done 0 (downloadFile ''condo_theline_12_1.png''
       (onload 0 True (processImage android_phone 0 (ImageDownloader [''https://cdn.example.com/room.png''])))))"
proof -
  let ?d = "onload 0 True (processImage android_phone 0 (ImageDownloader [''https://cdn.example.com/room.png'']))"
  let ?b = "android_phone\<lparr>navigator_shares_files := False\<rparr>"
  have a: "getPlatform (navigator_userAgent android_phone) = Android" by code_simp
  have c: "canShareFiles android_phone" by code_simp
  have e: "in_phase ?d 0 Encoding" by code_simp
  have a': "getPlatform (navigator_userAgent ?b) = Android" by code_simp
  have c': "\<not> canShareFiles ?b" by code_simp
  have fn: "filename (tasks ?d ! 0) = ''condo_theline_12_1.png''" by code_simp
  have dl: "downloads ?d = []" by code_simp
  have p0: "processedCount ?d = 0" by code_simp
  have f0: "failedCount ?d = 0" by code_simp
  note 1 = android_share_fallback [of android_phone ?d 0]
  from 1 a c e have s: "in_phase (downloadWithShareAPI 0 ?d) 0 Sharing"
    and k: "filename (tasks (downloadWithShareAPI 0 ?d) ! 0) = filename (tasks ?d ! 0)"
    and k1: "downloads (downloadWithShareAPI 0 ?d) = downloads ?d"
    and k2: "processedCount (downloadWithShareAPI 0 ?d) = processedCount ?d"
    and k3: "failedCount (downloadWithShareAPI 0 ?d) = failedCount ?d"
    by blast+
  note 2 = android_share_fallback [of android_phone "downloadWithShareAPI 0 ?d" 0 False]
  from 2 s have
    r1: "downloads (share_settled 0 False (downloadWithShareAPI 0 ?d)) =
           downloads (downloadWithShareAPI 0 ?d) @ [filename (tasks (downloadWithShareAPI 0 ?d) ! 0)]"
    and r2: "processedCount (share_settled 0 False (downloadWithShareAPI 0 ?d)) =
           processedCount (downloadWithShareAPI 0 ?d) + 1"
    and r3: "failedCount (share_settled 0 False (downloadWithShareAPI 0 ?d)) =
           failedCount (downloadWithShareAPI 0 ?d)"
    by simp_all
  note 3 = android_share_fallback [of ?b ?d 0]
  from 3 a' c' e have t: "step ?b (ToBlob 0 True) ?d =
      Some (task_done 0 (downloadFile (filename (tasks ?d ! 0)) ?d))" by blast
  have w1: "downloads (share_settled 0 False (downloadWithShareAPI 0 ?d)) = [''condo_theline_12_1.png'']"
    using r1 k k1 fn dl by simp
  have w2: "failedCount (share_settled 0 False (downloadWithShareAPI 0 ?d)) = 0"
    using r3 k3 f0 by simp
  have w3: "processedCount (share_settled 0 False (downloadWithShareAPI 0 ?d)) = 1"
    using r2 k2 p0 by simp
  have w4: "step ?b (ToBlob 0 True) ?d = Some (task_done 0 (downloadFile ''condo_theline_12_1.png'' ?d))"
    using t fn by simp
  show ?thesis using a c e s w1 w2 w3 a' c' w4 by blast
qed

lemma names_fixed_phase:
  assumes n: "names_fixed b d" and i: "i < length (tasks d)" and p: "phase (tasks d ! i) \<noteq> Pending"
    and t: "tasks d' = (tasks d)[i := (tasks d ! i)\<lparr>phase := ph\<rparr>]" and ph: "ph \<noteq> Pending"
    and im: "images d' = images d"
  shows "names_fixed b d'"
  unfolding names_fixed_def
proof (intro allI impI)
  fix j assume j: "j < length (tasks d')" and q: "phase (tasks d' ! j) \<noteq> Pending"
  show "filename (tasks d' ! j) =
          processImage_filename (url_parser b) (location_href b) (images d' ! j) j \<and>
        fileName (tasks d' ! j) = getFileNameFromUrl (url_parser b) (location_href b)"
  proof (cases "j = i")
    case True
    with n i p t im show ?thesis by (simp add: names_fixed_def)
  next
    case False
    with n j q t im show ?thesis by (simp add: names_fixed_def)
  qed
qed

lemma step_names:
  assumes s: "step b e d = Some d'" and n: "names_fixed b d"
  shows "names_fixed b d'"
proof (cases e)
  case (Timeout i)
  with s have i: "i < length (tasks d)" and d': "d' = processImage b i d"
    by (simp_all add: in_phase_def split: if_splits)
  show ?thesis
    unfolding names_fixed_def
  proof (intro allI impI)
    fix j assume j: "j < length (tasks d')" and q: "phase (tasks d' ! j) \<noteq> Pending"
    show "filename (tasks d' ! j) =
          processImage_filename (url_parser b) (location_href b) (images d' ! j) j \<and>
        fileName (tasks d' ! j) = getFileNameFromUrl (url_parser b) (location_href b)"
    proof (cases "j = i")
      case True
      with i d' show ?thesis by simp
    next
      case False
      with n j q d' show ?thesis by (simp add: names_fixed_def)
    qed
  qed
next
  case (OnError i)
  with s have i: "i < length (tasks d)" and p: "phase (tasks d ! i) = Loading"
    and d': "d' = task_failed i d"
    by (simp_all add: in_phase_def split: if_splits)
  show ?thesis
    by (rule names_fixed_phase [OF n i, where ph = Failed]) (simp_all add: p d')
next
  case (OnLoad i drawn)
  with s have i: "i < length (tasks d)" and p: "phase (tasks d ! i) = Loading"
    and d': "d' = onload i drawn d"
    by (simp_all add: in_phase_def split: if_splits)
  show ?thesis
    by (rule names_fixed_phase [OF n i, where ph = "if drawn then Encoding else Failed"])
       (simp_all add: p d' onload_def)
next
  case (ToBlob i blob)
  with s have i: "i < length (tasks d)" and p: "phase (tasks d ! i) = Encoding"
    and d': "d' = toBlob_callback b i blob d"
    by (simp_all add: in_phase_def split: if_splits)
  have "\<exists>ph. ph \<noteq> Pending \<and> tasks d' = (tasks d)[i := (tasks d ! i)\<lparr>phase := ph\<rparr>]"
  proof (cases "blob \<and> getPlatform (navigator_userAgent b) = Android \<and> canShareFiles b")
    case True
    with i have "tasks d' = (tasks d)[i := (tasks d ! i)\<lparr>phase := Sharing\<rparr>]"
      by (simp add: d' toBlob_callback_def handleImageDownload_def)
    then show ?thesis by blast
  next
    case False
    with p have "tasks d' = (tasks d)[i := (tasks d ! i)\<lparr>phase := (if blob then Done else Failed)\<rparr>]"
      by (auto simp: d' toBlob_callback_def handleImageDownload_def split: platform.splits)
    moreover have "(if blob then Done else Failed) \<noteq> Pending" by simp
    ultimately show ?thesis by blast
  qed
  then obtain ph where "ph \<noteq> Pending" and "tasks d' = (tasks d)[i := (tasks d ! i)\<lparr>phase := ph\<rparr>]"
    by blast
  moreover have "images d' = images d"
    by (simp add: d' toBlob_callback_def handleImageDownload_def Let_def split: platform.splits)
  ultimately show ?thesis
    using names_fixed_phase [OF n i, where d' = d' and ph = ph] p by simp
next
  case (ShareSettled i shared)
  with s have i: "i < length (tasks d)" and p: "phase (tasks d ! i) = Sharing"
    and d': "d' = share_settled i shared d"
    by (simp_all add: in_phase_def split: if_splits)
  show ?thesis
    by (rule names_fixed_phase [OF n i, where ph = Done])
       (simp_all add: p d' share_settled_def handleImageDownload_resume_def)
next
  case AllSettled
  with s have "d' = processImages_resume d" using step_AllSettled by blast
  with n show ?thesis by (simp add: names_fixed_def)
qed

lemma exec_names: "exec b es d = Some d' \<Longrightarrow> names_fixed b d \<Longrightarrow> names_fixed b d'"
proof (induction es arbitrary: d)
  case Nil
  then show ?case by simp
next
  case (Cons e es)
  then obtain d1 where s: "step b e d = Some d1" and r: "exec b es d1 = Some d'"
    by (auto split: option.splits)
  from step_names [OF s Cons.prems(2)] Cons.IH [OF r] show ?case by blast
qed

lemma names_fixed_init: "names_fixed b (ImageDownloader imgs)"
proof -
  have "tasks (ImageDownloader imgs) =
     replicate (length imgs) \<lparr>phase = Pending, filename = [], fileName = []\<rparr>"
    by (rule ImageDownloader_fields)
  then show ?thesis by (simp add: names_fixed_def)
qed

lemma run_names:
  assumes r: "run b imgs es = Some d" and i: "i < length imgs" and p: "phase (tasks d ! i) \<noteq> Pending"
  shows "filename (tasks d ! i) = run_filenames_spec (url_parser b) (location_href b) imgs ! i"
    and "fileName (tasks d ! i) = getFileNameFromUrl (url_parser b) (location_href b)"
proof -
  have e: "exec b es (ImageDownloader imgs) = Some d" using r by (simp add: run_def)
  have n: "names_fixed b d" using e names_fixed_init by (rule exec_names)
  have "images (ImageDownloader imgs) = imgs" by (rule ImageDownloader_fields)
  with exec_images [OF e] have im: "images d = imgs" by simp
  have "run_inv d" using r by (rule run_inv_run)
  then have l: "length (tasks d) = length imgs" using im by (simp add: run_inv_def)
  from n i p l im have f: "filename (tasks d ! i) =
      processImage_filename (url_parser b) (location_href b) (imgs ! i) i"
    and g: "fileName (tasks d ! i) = getFileNameFromUrl (url_parser b) (location_href b)"
    by (simp_all add: names_fixed_def)
  from f show "filename (tasks d ! i) = run_filenames_spec (url_parser b) (location_href b) imgs ! i"
    using i by (simp add: run_filenames_spec_def processImage_filename_def Let_def)
  from g show "fileName (tasks d ! i) = getFileNameFromUrl (url_parser b) (location_href b)" .
qed

text \<open>
  C9. The code derives the prefix again for each image, from the page address at that
  moment. When the page address stays the same during the run, the filenames are those
  formed from a prefix derived once; and in a run of the class, every task that has started
  carries the filename formed from that one prefix, and the prefix itself.
\<close>

theorem run_filenames_prefix_once:
  "((\<forall>i<length imgs. hrefs i = href) \<longrightarrow>
      run_filenames parse hrefs imgs = run_filenames_spec parse href imgs) \<and>
   (run b imgs es = Some d \<and> i < length imgs \<and> phase (tasks d ! i) \<noteq> Pending \<longrightarrow>
      filename (tasks d ! i) = run_filenames_spec (url_parser b) (location_href b) imgs ! i \<and>
      fileName (tasks d ! i) = getFileNameFromUrl (url_parser b) (location_href b))"
proof (intro conjI impI)
  assume "\<forall>i<length imgs. hrefs i = href"
  then show "run_filenames parse hrefs imgs = run_filenames_spec parse href imgs"
    by (simp add: run_filenames_def run_filenames_spec_def processImage_filename_def Let_def)
next
  assume h: "run b imgs es = Some d \<and> i < length imgs \<and> phase (tasks d ! i) \<noteq> Pending"
  then show "filename (tasks d ! i) = run_filenames_spec (url_parser b) (location_href b) imgs ! i"
    using run_names(1) by blast
  from h show "fileName (tasks d ! i) = getFileNameFromUrl (url_parser b) (location_href b)"
    using run_names(2) by blast
qed

theorem run_filenames_prefix_once_witness:
  "run_filenames https_pathname (\<lambda>i. ''https://mincondo.github.io/condo/the-line/12'')
     [''https://cdn.example.com/room.png'', ''https://cdn.example.com/view''] =
   run_filenames_spec https_pathname ''https://mincondo.github.io/condo/the-line/12''
     [''https://cdn.example.com/room.png'', ''https://cdn.example.com/view''] \<and>
   run android_phone [''https://cdn.example.com/room.png'', ''https://cdn.example.com/view'']
     [Timeout 1] \<noteq> None \<and>
   map_option (\<lambda>d. filename (tasks d ! 1))
     (run android_phone [''https://cdn.example.com/room.png'', ''https://cdn.example.com/view'']
       [Timeout 1]) = Some ''condo_theline_12_2.jpg''"
proof -
  let ?imgs = "[''https://cdn.example.com/room.png'', ''https://cdn.example.com/view'']"
  let ?r = "run android_phone ?imgs [Timeout 1]"
  have h: "\<forall>i<length ?imgs.
          (\<lambda>i. ''https://mincondo.github.io/condo/the-line/12'') i =
          ''https://mincondo.github.io/condo/the-line/12''"
    by simp
  have 1: "run_filenames https_pathname (\<lambda>i. ''https://mincondo.github.io/condo/the-line/12'') ?imgs =
     run_filenames_spec https_pathname ''https://mincondo.github.io/condo/the-line/12'' ?imgs"
    using run_filenames_prefix_once [where imgs = ?imgs
        and hrefs = "\<lambda>i. ''https://mincondo.github.io/condo/the-line/12''"
        and href = "''https://mincondo.github.io/condo/the-line/12''"
        and parse = https_pathname] h by blast
  have n: "?r \<noteq> None" by code_simp
  then obtain d where d: "?r = Some d" by auto
  have "map_option (\<lambda>d. phase (tasks d ! 1)) ?r = Some Loading" by code_simp
  then have p: "phase (tasks d ! 1) \<noteq> Pending" using d by simp
  have i: "(1::nat) < length ?imgs" by simp
  have v: "run_filenames_spec (url_parser android_phone) (location_href android_phone) ?imgs ! 1 =
           ''condo_theline_12_2.jpg''" by code_simp
  from run_filenames_prefix_once [where b = android_phone and imgs = ?imgs and es = "[Timeout 1]"
      and d = d and i = 1] d p i
  have "filename (tasks d ! 1) =
        run_filenames_spec (url_parser android_phone) (location_href android_phone) ?imgs ! 1"
    by blast
  with v d have "map_option (\<lambda>d. filename (tasks d ! 1)) ?r = Some ''condo_theline_12_2.jpg''"
    by simp
  with 1 n show ?thesis by blast
qed

end
